theory Spec2Isabelle
  imports Main "HOL-Library.Multiset"
begin

section \<open>Errors and tabular data\<close>

text \<open>
  The exceptions the modelled code can raise. \<open>KeyError\<close> carries the missing label
  (\<open>row[key]\<close> on a row without that column). \<open>TypeError\<close> is the unhashable key that
  \<open>row[key]\<close> yields when the label is repeated. \<open>ValueError\<close> stands for \<open>range()\<close>
  with a zero step, for a worker pool without workers, for a series used as a truth value
  and for a string that is no calendar date. \<open>DriverError\<close> is any exception coming
  out of the database driver and \<open>UnboundLocalError\<close> is the read of a local variable
  that no branch assigned.
\<close>

datatype py_error =
    KeyError string
  | TypeError
  | ValueError
  | UnboundLocalError
  | DriverError string

text \<open>
  A row as \<open>iterrows\<close> hands it out: the column labels paired with the row's values, in
  column order. A Python \<open>dict\<close> keeps insertion order, so it is an association list
  too, one without repeated keys.
\<close>

type_synonym 'v row = "(string \<times> 'v) list"
type_synonym 'v dict = "(string \<times> 'v) list"

text \<open>
  A value that a row hands out as a join key: an ordinary value or the missing value
  \<open>NaN\<close>. Python's \<open>==\<close> holds of two ordinary values that are equal and never of
  \<open>NaN\<close>, not even with itself.
\<close>

datatype 'a cell = Value 'a | NaN

fun py_eq :: "'a cell \<Rightarrow> 'a cell \<Rightarrow> bool" where
  "py_eq (Value a) (Value b) = (a = b)"
| "py_eq _ _ = False"

text \<open>
  A \<open>pandas.DataFrame\<close>: the column labels and, per row, one stored value for each
  column. \<open>len(df)\<close> is the number of rows. \<open>upcast\<close> is the conversion of a stored
  value to the common dtype of the frame's columns: \<open>iterrows\<close> hands out each row as
  one series of a single dtype, so the values arrive converted (in a frame with an
  \<open>int64\<close> and a \<open>float64\<close> column the integers arrive as floats). For a frame whose
  columns have one dtype it is the identity.
\<close>

record 'v dataframe =
  columns :: "string list"
  data :: "'v list list"
  upcast :: "'v \<Rightarrow> 'v"

definition len :: "'v dataframe \<Rightarrow> nat" where
  "len df = length (data df)"

definition iterrows :: "'v dataframe \<Rightarrow> 'v row list" where
  "iterrows df = map (\<lambda>r. zip (columns df) (map (upcast df) r)) (data df)"

text \<open>The frame invariant of pandas: every row holds exactly one value per column.\<close>

definition wf_frame :: "'v dataframe \<Rightarrow> bool" where
  "wf_frame df = list_all (\<lambda>r. length r = length (columns df)) (data df)"

text \<open>A label names a column of the frame when it occurs exactly once among the columns.\<close>

definition has_column :: "'v dataframe \<Rightarrow> string \<Rightarrow> bool" where
  "has_column df k = (count_list (columns df) k = 1)"

text \<open>
  \<open>row[key]\<close> as the hash join uses it: the value under the label; \<open>KeyError\<close> when no
  column has the label. With a repeated label pandas returns a sub-series, which cannot
  be hashed: its use as a key of the hash table raises \<open>TypeError\<close>.
\<close>

definition row_get :: "'v row \<Rightarrow> string \<Rightarrow> py_error + 'v" where
  "row_get row k =
     (case filter (\<lambda>cv. fst cv = k) row of
        [] \<Rightarrow> Inl (KeyError k)
      | [cv] \<Rightarrow> Inr (snd cv)
      | _ \<Rightarrow> Inl TypeError)"

text \<open>\<open>d[k] = v\<close> on a dict: an existing key keeps its position, a new key goes last.\<close>

fun dict_set :: "string \<Rightarrow> 'v \<Rightarrow> 'v dict \<Rightarrow> 'v dict" where
  "dict_set k v [] = [(k, v)]"
| "dict_set k v (p # ps) = (if fst p = k then (k, v) # ps else p # dict_set k v ps)"

text \<open>\<open>{**a, **b}\<close>: the items of \<open>a\<close>, then every item of \<open>b\<close> stored in turn.\<close>

definition dict_merge :: "'v dict \<Rightarrow> 'v dict \<Rightarrow> 'v dict" where
  "dict_merge a b = fold (\<lambda>kv d. dict_set (fst kv) (snd kv) d) b a"

text \<open>\<open>row.to_dict()\<close>: a dict filled with the row's items in order.\<close>

definition to_dict :: "'v row \<Rightarrow> 'v dict" where
  "to_dict row = dict_merge [] row"

text \<open>\<open>d[k]\<close> on a dict, as an option.\<close>

definition dict_get :: "'v dict \<Rightarrow> string \<Rightarrow> 'v option" where
  "dict_get d k = map_of d k"

section \<open>The join engine\<close>

text \<open>
  The hash table maps a key value to the build rows that carry it, in row order.
  \<open>table_get\<close> is the lookup of a key that a row has just handed out, as in
  \<open>key_value in hash_table\<close>: the key is hashed and compared with \<open>==\<close>. A \<open>NaN\<close>
  handed out by \<open>iterrows\<close> is a float object of its own, unequal to every key of the
  table, so its lookup finds nothing.
\<close>

definition table_get :: "('a cell \<rightharpoonup> 'r) \<Rightarrow> 'a cell \<Rightarrow> 'r option" where
  "table_get hash_table key_value =
     (case key_value of NaN \<Rightarrow> None | Value a \<Rightarrow> hash_table (Value a))"

text \<open>
  The build loop of \<open>hash_join\<close>. After \<open>hash_table[key_value] = []\<close> the same key
  object is used for \<open>hash_table[key_value].append(row)\<close>, which therefore finds its
  entry also when the key is \<open>NaN\<close>. The entry of a \<open>NaN\<close> key is never found again;
  the model keeps the one of the last such row under \<open>NaN\<close>.
\<close>

fun build_table ::
  "string \<Rightarrow> 'a cell row list \<Rightarrow> ('a cell \<rightharpoonup> 'a cell row list)
     \<Rightarrow> py_error + ('a cell \<rightharpoonup> 'a cell row list)" where
  "build_table build_key [] hash_table = Inr hash_table"
| "build_table build_key (row # rows) hash_table =
     (case row_get row build_key of
        Inl e \<Rightarrow> Inl e
      | Inr key_value \<Rightarrow>
          (let hash_table' =
                 (if table_get hash_table key_value = None then hash_table(key_value \<mapsto> [])
                  else hash_table)
           in build_table build_key rows
                (hash_table'(key_value \<mapsto> the (hash_table' key_value) @ [row]))))"

text \<open>The combined row of one match; \<open>swap\<close> says that the build side is the right frame.\<close>

definition combine :: "bool \<Rightarrow> 'v row \<Rightarrow> 'v row \<Rightarrow> 'v dict" where
  "combine swap probe_row build_row =
     (if swap then dict_merge (to_dict probe_row) (to_dict build_row)
      else dict_merge (to_dict build_row) (to_dict probe_row))"

text \<open>The probe loop: every probe row is paired with the build rows stored under its key.\<close>

fun probe ::
  "bool \<Rightarrow> string \<Rightarrow> ('a cell \<rightharpoonup> 'a cell row list) \<Rightarrow> 'a cell row list
     \<Rightarrow> 'a cell dict list \<Rightarrow> py_error + 'a cell dict list" where
  "probe swap probe_key hash_table [] result_rows = Inr result_rows"
| "probe swap probe_key hash_table (probe_row # rows) result_rows =
     (case row_get probe_row probe_key of
        Inl e \<Rightarrow> Inl e
      | Inr key_value \<Rightarrow>
          (case table_get hash_table key_value of
             None \<Rightarrow> probe swap probe_key hash_table rows result_rows
           | Some build_rows \<Rightarrow>
               probe swap probe_key hash_table rows
                 (result_rows @ map (combine swap probe_row) build_rows)))"

text \<open>
  \<open>HybridJoin.hash_join\<close>. The smaller frame is the build side. The result is the list
  \<open>result_rows\<close> of combined rows, which the source hands to the \<open>DataFrame\<close>
  constructor; \<open>join_type\<close> is accepted and never read.
\<close>

definition hash_join ::
  "'a cell dataframe \<Rightarrow> 'a cell dataframe \<Rightarrow> string \<Rightarrow> string \<Rightarrow> string
     \<Rightarrow> py_error + 'a cell dict list" where
  "hash_join left_df right_df left_key right_key join_type =
     (let (build_df, probe_df, build_key, probe_key, swap) =
            (if len left_df \<le> len right_df
             then (left_df, right_df, left_key, right_key, False)
             else (right_df, left_df, right_key, left_key, True))
      in case build_table build_key (iterrows build_df) Map.empty of
           Inl e \<Rightarrow> Inl e
         | Inr hash_table \<Rightarrow> probe swap probe_key hash_table (iterrows probe_df) [])"

text \<open>
  \<open>HybridJoin.nested_loop_join\<close>: the condition is called on every pair, left rows in
  the outer loop. The condition is the caller's function; it may raise.
\<close>

fun inner_loop ::
  "('v row \<Rightarrow> 'v row \<Rightarrow> py_error + bool) \<Rightarrow> 'v row \<Rightarrow> 'v row list \<Rightarrow> 'v dict list
     \<Rightarrow> py_error + 'v dict list" where
  "inner_loop condition_func left_row [] result_rows = Inr result_rows"
| "inner_loop condition_func left_row (right_row # rows) result_rows =
     (case condition_func left_row right_row of
        Inl e \<Rightarrow> Inl e
      | Inr b \<Rightarrow>
          inner_loop condition_func left_row rows
            (if b then result_rows @ [dict_merge (to_dict left_row) (to_dict right_row)]
             else result_rows))"

fun outer_loop ::
  "('v row \<Rightarrow> 'v row \<Rightarrow> py_error + bool) \<Rightarrow> 'v row list \<Rightarrow> 'v row list \<Rightarrow> 'v dict list
     \<Rightarrow> py_error + 'v dict list" where
  "outer_loop condition_func [] right_rows result_rows = Inr result_rows"
| "outer_loop condition_func (left_row # rows) right_rows result_rows =
     (case inner_loop condition_func left_row right_rows result_rows of
        Inl e \<Rightarrow> Inl e
      | Inr result_rows' \<Rightarrow> outer_loop condition_func rows right_rows result_rows')"

definition nested_loop_join ::
  "'v dataframe \<Rightarrow> 'v dataframe \<Rightarrow> ('v row \<Rightarrow> 'v row \<Rightarrow> py_error + bool)
     \<Rightarrow> py_error + 'v dict list" where
  "nested_loop_join left_df right_df condition_func =
     outer_loop condition_func (iterrows left_df) (iterrows right_df) []"

text \<open>
  The equality predicate of the brute-force join, \<open>lambda l, r: l[k] == r[k]\<close>: the
  reference the hash join is compared with. A row without the label raises \<open>KeyError\<close>.
  Where a label is repeated, \<open>row[k]\<close> is a sub-series, the comparison gives a series
  and its use as the condition of the \<open>if\<close> raises \<open>ValueError\<close>.
\<close>

definition key_equality :: "string \<Rightarrow> 'a cell row \<Rightarrow> 'a cell row \<Rightarrow> py_error + bool" where
  "key_equality k left_row right_row =
     (case filter (\<lambda>cv. fst cv = k) left_row of
        [] \<Rightarrow> Inl (KeyError k)
      | ls \<Rightarrow>
          (case filter (\<lambda>cv. fst cv = k) right_row of
             [] \<Rightarrow> Inl (KeyError k)
           | rs \<Rightarrow>
               (case (ls, rs) of
                  ([a], [b]) \<Rightarrow> Inr (py_eq (snd a) (snd b))
                | _ \<Rightarrow> Inl ValueError)))"

section \<open>The batch loader\<close>

text \<open>
  The database driver is outside the repository. One call of a batch loader talks to it
  in a fixed order: connect, open a cursor, \<open>executemany\<close>, commit, read \<open>rowcount\<close>,
  close the cursor, close the connection. A \<open>driver_script\<close> says, for one such call,
  which of these driver calls raises (with its message) and what \<open>rowcount\<close> reads.
\<close>

record driver_script =
  connect_error :: "string option"
  cursor_error :: "string option"
  executemany_error :: "string option"
  commit_error :: "string option"
  rowcount :: int
  cursor_close_error :: "string option"
  conn_close_error :: "string option"

text \<open>The driver calls that completed, in order: what one call did to the store.\<close>

datatype driver_event = Connect | Cursor | Executemany | Commit | CursorClose | ConnClose

text \<open>
  A statement of a \<open>try\<close> body either raises or completes a driver call. The body runs
  until the first statement that raises; the events are the driver calls completed
  before that.
\<close>

fun run_body :: "(py_error + driver_event) list \<Rightarrow> py_error option \<times> driver_event list" where
  "run_body [] = (None, [])"
| "run_body (Inl e # rest) = (Some e, [])"
| "run_body (Inr ev # rest) = (let (raised, events) = run_body rest in (raised, ev # events))"

definition driver_call :: "driver_event \<Rightarrow> string option \<Rightarrow> py_error + driver_event" where
  "driver_call ev err = (case err of Some msg \<Rightarrow> Inl (DriverError msg) | None \<Rightarrow> Inr ev)"

text \<open>\<open>self.db_config[k]\<close>, read while the arguments of \<open>connect\<close> are evaluated.\<close>

definition config_item :: "(string \<rightharpoonup> string) \<Rightarrow> string \<Rightarrow> (py_error + driver_event) list" where
  "config_item db_config k = (if db_config k = None then [Inl (KeyError k)] else [])"

definition connect_args :: "(string \<rightharpoonup> string) \<Rightarrow> (py_error + driver_event) list" where
  "connect_args db_config =
     concat (map (config_item db_config) [''host'', ''user'', ''password'', ''database''])"

text \<open>The dictionary a batch loader returns; \<open>error\<close> is present on failure only.\<close>

record load_result =
  thread_id :: nat
  table :: string
  rows_loaded :: int
  status :: string
  error :: "py_error option"

definition success_result :: "nat \<Rightarrow> string \<Rightarrow> int \<Rightarrow> load_result" where
  "success_result tid tbl rows_affected =
     \<lparr>thread_id = tid, table = tbl, rows_loaded = rows_affected, status = ''success'',
      error = None\<rparr>"

definition failed_result :: "nat \<Rightarrow> string \<Rightarrow> py_error \<Rightarrow> load_result" where
  "failed_result tid tbl e =
     \<lparr>thread_id = tid, table = tbl, rows_loaded = 0, status = ''failed'', error = Some e\<rparr>"

text \<open>
  The tables for which \<open>load_dimension_batch\<close> binds \<open>sql\<close> and \<open>data_tuples\<close>. For any
  other name no branch of the \<open>if\<close> chain runs and the call of \<open>executemany\<close> reads an
  unbound local.
\<close>

definition dimension_tables :: "string list" where
  "dimension_tables =
     [''Customer_Dim'', ''Store_Dim'', ''Supplier_Dim'', ''Product_Dim'', ''Date_Dim'']"

definition sql_binding :: "string \<Rightarrow> (py_error + driver_event) list" where
  "sql_binding table_name =
     (if table_name \<in> set dimension_tables then [] else [Inl UnboundLocalError])"

text \<open>
  \<open>MultithreadedLoader.load_dimension_batch\<close>: the \<open>try\<close> body, then the result of the
  normal exit or of the \<open>except Exception\<close> handler. The second component is what the
  call did to the store.
\<close>

definition load_dimension_batch ::
  "(string \<rightharpoonup> string) \<Rightarrow> driver_script \<Rightarrow> string \<Rightarrow> 'v dataframe \<Rightarrow> nat
     \<Rightarrow> load_result \<times> driver_event list" where
  "load_dimension_batch db_config drv table_name data_batch tid =
     (let (raised, events) =
            run_body
              (connect_args db_config @
               [driver_call Connect (connect_error drv),
                driver_call Cursor (cursor_error drv)] @
               sql_binding table_name @
               [driver_call Executemany (executemany_error drv),
                driver_call Commit (commit_error drv),
                driver_call CursorClose (cursor_close_error drv),
                driver_call ConnClose (conn_close_error drv)])
      in (case raised of
            None \<Rightarrow> success_result tid table_name (rowcount drv)
          | Some e \<Rightarrow> failed_result tid table_name e,
          events))"

text \<open>\<open>MultithreadedLoader.load_fact_batch\<close>: the same steps for the fact table.\<close>

definition load_fact_batch ::
  "(string \<rightharpoonup> string) \<Rightarrow> driver_script \<Rightarrow> 'v dataframe \<Rightarrow> nat
     \<Rightarrow> load_result \<times> driver_event list" where
  "load_fact_batch db_config drv data_batch tid =
     (let (raised, events) =
            run_body
              (connect_args db_config @
               [driver_call Connect (connect_error drv),
                driver_call Cursor (cursor_error drv),
                driver_call Executemany (executemany_error drv),
                driver_call Commit (commit_error drv),
                driver_call CursorClose (cursor_close_error drv),
                driver_call ConnClose (conn_close_error drv)])
      in (case raised of
            None \<Rightarrow> success_result tid ''Sales_Fact'' (rowcount drv)
          | Some e \<Rightarrow> failed_result tid ''Sales_Fact'' e,
          events))"

section \<open>Partitioning and the parallel load\<close>

text \<open>
  \<open>range(start, stop, step)\<close> for a step that is not zero (a zero step raises before any
  element is produced, see \<open>split_batches\<close>).
\<close>

function py_range :: "int \<Rightarrow> int \<Rightarrow> int \<Rightarrow> int list" where
  "py_range start stop step =
     (if 0 < step \<and> start < stop then start # py_range (start + step) stop step
      else if step < 0 \<and> stop < start then start # py_range (start + step) stop step
      else [])"
  by pat_completeness auto
termination
  by (relation "measure (\<lambda>(start, stop, step).
         if 0 < step then nat (stop - start) else nat (start - stop))") auto

declare py_range.simps [simp del]

text \<open>
  \<open>data[i:j]\<close> on a frame, for the bounds \<open>0 \<le> i \<le> j\<close> that \<open>parallel_load\<close> uses: the
  rows at the positions \<open>i, ..., j - 1\<close> that exist, under the same columns.
\<close>

definition frame_slice :: "'v dataframe \<Rightarrow> int \<Rightarrow> int \<Rightarrow> 'v dataframe" where
  "frame_slice df i j = df\<lparr>data := take (nat (j - i)) (drop (nat i) (data df))\<rparr>"

text \<open>
  The partitioning line of \<open>parallel_load\<close>:
  \<open>[data[i:i+batch_size] for i in range(0, len(data), batch_size)]\<close>.
\<close>

definition split_batches :: "'v dataframe \<Rightarrow> int \<Rightarrow> py_error + 'v dataframe list" where
  "split_batches df batch_size =
     (if batch_size = 0 then Inl ValueError
      else Inr (map (\<lambda>i. frame_slice df i (i + batch_size))
                  (py_range 0 (int (len df)) batch_size)))"

text \<open>
  The loader object: its configuration and the results list, which is created empty by
  \<open>__init__\<close> and only ever appended to.
\<close>

record loader =
  db_config :: "string \<rightharpoonup> string"
  max_workers :: int
  results :: "load_result list"

definition new_loader :: "(string \<rightharpoonup> string) \<Rightarrow> int \<Rightarrow> loader" where
  "new_loader cfg workers = \<lparr>db_config = cfg, max_workers = workers, results = []\<rparr>"

text \<open>
  The work submitted for the batch with index \<open>idx\<close>. The store's behaviour in that call
  is given by \<open>store\<close>, a function of the table, the index and the batch.
\<close>

definition submit ::
  "loader \<Rightarrow> (string \<Rightarrow> nat \<Rightarrow> 'v dataframe \<Rightarrow> driver_script) \<Rightarrow> string \<Rightarrow> nat \<Rightarrow> 'v dataframe
     \<Rightarrow> load_result \<times> driver_event list" where
  "submit ld store table_name idx batch =
     (if table_name = ''Sales_Fact''
      then load_fact_batch (db_config ld) (store table_name idx batch) batch idx
      else load_dimension_batch (db_config ld) (store table_name idx batch) table_name batch idx)"

text \<open>The two numbers of the summary line: rows loaded and failed batches.\<close>

record load_summary =
  total_loaded :: int
  failed :: nat

definition summarize :: "load_result list \<Rightarrow> load_summary" where
  "summarize rs =
     \<lparr>total_loaded = sum_list (map rows_loaded rs),
      failed = length (filter (\<lambda>r. status r = ''failed'') rs)\<rparr>"

text \<open>
  \<open>MultithreadedLoader.parallel_load\<close>. The batches are cut first; then the worker
  pool is created, which raises \<open>ValueError\<close> when \<open>max_workers\<close> is not positive, before
  any batch is loaded. Every batch is submitted with its index; the
  results are appended to \<open>self.results\<close> in the order in which the futures complete,
  given by \<open>completion\<close>, a list of batch indices (each batch has a connection of its own,
  so the calls do not interact; an index without a future names nothing and is skipped).
  The summary is computed from \<open>self.results\<close>. The function returns the loader as it
  is afterwards and the summary it logs.
\<close>

definition parallel_load ::
  "loader \<Rightarrow> (string \<Rightarrow> nat \<Rightarrow> 'v dataframe \<Rightarrow> driver_script) \<Rightarrow> nat list \<Rightarrow> string
     \<Rightarrow> 'v dataframe \<Rightarrow> int \<Rightarrow> py_error + (loader \<times> load_summary)" where
  "parallel_load ld store completion table_name df batch_size =
     (case split_batches df batch_size of
        Inl e \<Rightarrow> Inl e
      | Inr batches \<Rightarrow>
          (if max_workers ld \<le> 0 then Inl ValueError
           else
             (let futures = map (\<lambda>(idx, batch). fst (submit ld store table_name idx batch))
                              (enumerate 0 batches);
                  collected = map (\<lambda>idx. futures ! idx)
                                (filter (\<lambda>idx. idx < length futures) completion);
                  ld' = ld\<lparr>results := results ld @ collected\<rparr>
              in Inr (ld', summarize (results ld')))))"


section \<open>The date dimension\<close>

text \<open>
  A calendar date as pandas hands it out: \<open>date.year\<close>, \<open>date.month\<close>, \<open>date.day\<close>. The
  calendar is the proleptic Gregorian one. \<open>valid_date\<close> holds of the triples that are
  days of the calendar.
\<close>

record date =
  year :: int
  month :: nat
  day :: nat

definition is_leap :: "int \<Rightarrow> bool" where
  "is_leap y \<longleftrightarrow> y mod 4 = 0 \<and> (y mod 100 \<noteq> 0 \<or> y mod 400 = 0)"

definition days_in_month :: "int \<Rightarrow> nat \<Rightarrow> nat" where
  "days_in_month y m =
     (if m = 2 then (if is_leap y then 29 else 28)
      else if m \<in> {4, 6, 9, 11} then 30 else 31)"

definition valid_date :: "date \<Rightarrow> bool" where
  "valid_date d \<longleftrightarrow>
     1 \<le> month d \<and> month d \<le> 12 \<and>
     1 \<le> day d \<and> day d \<le> days_in_month (year d) (month d)"

definition date_le :: "date \<Rightarrow> date \<Rightarrow> bool" where
  "date_le a b \<longleftrightarrow>
     year a < year b \<or>
     (year a = year b \<and> (month a < month b \<or> (month a = month b \<and> day a \<le> day b)))"

text \<open>The day after a date.\<close>

definition next_day :: "date \<Rightarrow> date" where
  "next_day d =
     (if day d < days_in_month (year d) (month d) then d\<lparr>day := day d + 1\<rparr>
      else if month d < 12 then d\<lparr>month := month d + 1, day := 1\<rparr>
      else d\<lparr>year := year d + 1, month := 1, day := 1\<rparr>)"



text \<open>
  \<open>date.dayofweek\<close>, Monday being 0, computed as Python's \<open>datetime\<close> does: from the
  ordinal of the date, the number of days since the day before 0001-01-01.
\<close>

definition days_before_year :: "int \<Rightarrow> int" where
  "days_before_year y = (y - 1) * 365 + (y - 1) div 4 - (y - 1) div 100 + (y - 1) div 400"

definition days_before_month :: "int \<Rightarrow> nat \<Rightarrow> nat" where
  "days_before_month y m = sum_list (map (days_in_month y) [1..<m])"

definition toordinal :: "date \<Rightarrow> int" where
  "toordinal d = days_before_year (year d) + int (days_before_month (year d) (month d)) + int (day d)"

definition dayofweek :: "date \<Rightarrow> nat" where
  "dayofweek d = nat ((toordinal d + 6) mod 7)"









section \<open>Notions used to state and prove the properties\<close>

text \<open>
  The values a frame hands out in the column \<open>k\<close>, row by row, as \<open>iterrows\<close> gives
  them; the number of combined rows of a join result whose column \<open>k\<close> holds \<open>v\<close>; and
  the number of the keys of a list that Python's \<open>==\<close> holds of with \<open>v\<close>.
\<close>

definition column_values :: "'v dataframe \<Rightarrow> string \<Rightarrow> 'v list" where
  "column_values df k =
     concat (map (\<lambda>row. map snd (filter (\<lambda>cv. fst cv = k) row)) (iterrows df))"



text \<open>The values a frame stores in the column \<open>k\<close>, before any conversion.\<close>

definition stored_values :: "'v dataframe \<Rightarrow> string \<Rightarrow> 'v list" where
  "stored_values df k =
     concat (map (\<lambda>r. map snd (filter (\<lambda>cv. fst cv = k) (zip (columns df) r))) (data df))"

text \<open>
  Proof vocabulary for the two loops: the key of a row whose lookup succeeds, the rows
  whose lookup succeeds, the rows whose key equals a given one, the combined rows that one
  probe row adds, and the pairs of an equality join listed left row by left row.
\<close>

definition the_key :: "string \<Rightarrow> 'v row \<Rightarrow> 'v" where
  "the_key k r = projr (row_get r k)"

definition all_keyed :: "string \<Rightarrow> 'v row list \<Rightarrow> bool" where
  "all_keyed k rows = list_all (\<lambda>r. \<exists>v. row_get r k = Inr v) rows"

definition bucket :: "string \<Rightarrow> 'a cell row list \<Rightarrow> 'a cell \<Rightarrow> 'a cell row list" where
  "bucket k rows v = filter (\<lambda>r. py_eq (the_key k r) v) rows"

definition matches ::
  "bool \<Rightarrow> ('a cell \<rightharpoonup> 'a cell row list) \<Rightarrow> string \<Rightarrow> 'a cell row \<Rightarrow> 'a cell dict list" where
  "matches swap h k p =
     (case table_get h (the_key k p) of None \<Rightarrow> [] | Some bs \<Rightarrow> map (combine swap p) bs)"


text \<open>Two small frames that share the key column \<open>k\<close>, used to run the joins.\<close>

definition orders_frame :: "int cell dataframe" where
  "orders_frame =
     \<lparr>columns = [''k'', ''a''],
      data = [[Value 1, Value 10], [Value 2, Value 20], [Value 2, Value 30]],
      upcast = (\<lambda>v. v)\<rparr>"

definition items_frame :: "int cell dataframe" where
  "items_frame =
     \<lparr>columns = [''k'', ''b''], data = [[Value 2, Value 200], [Value 3, Value 300]],
      upcast = (\<lambda>v. v)\<rparr>"

text \<open>
  Two frames that share the column \<open>x\<close> beside the key, and a frame with a column
  \<open>id\<close> and no rows.
\<close>

definition shared_left :: "int cell dataframe" where
  "shared_left =
     \<lparr>columns = [''k'', ''x''], data = [[Value 1, Value 10]], upcast = (\<lambda>v. v)\<rparr>"

definition shared_right :: "int cell dataframe" where
  "shared_right =
     \<lparr>columns = [''k'', ''x''], data = [[Value 1, Value 99]], upcast = (\<lambda>v. v)\<rparr>"

definition no_rows_frame :: "int cell dataframe" where
  "no_rows_frame = \<lparr>columns = [''id''], data = [], upcast = (\<lambda>v. v)\<rparr>"



text \<open>
  A frame with an \<open>int64\<close> key column that stores \<open>2^53 + 1\<close> beside a \<open>float64\<close> column:
  its rows are handed out as \<open>float64\<close>, which has 53 bits of mantissa, so the key
  arrives as \<open>2^53\<close>. And a frame whose key column stores \<open>2^53\<close>.
\<close>

definition wide_key_left :: "int cell dataframe" where
  "wide_key_left =
     \<lparr>columns = [''k'', ''x''], data = [[Value 9007199254740993, Value 5]],
      upcast = (\<lambda>v. if v = Value 9007199254740993 then Value 9007199254740992 else v)\<rparr>"

definition wide_key_right :: "int cell dataframe" where
  "wide_key_right =
     \<lparr>columns = [''k''], data = [[Value 9007199254740992]], upcast = (\<lambda>v. v)\<rparr>"

text \<open>
  Vocabulary for the loader's properties: a driver script without any failure, a
  configuration with the four connection settings, the two shapes a load result can have,
  and a script and a configuration to run the loader with.
\<close>

definition healthy :: "driver_script \<Rightarrow> bool" where
  "healthy drv \<longleftrightarrow>
     connect_error drv = None \<and> cursor_error drv = None \<and> executemany_error drv = None \<and>
     commit_error drv = None \<and> cursor_close_error drv = None \<and> conn_close_error drv = None"

definition complete_config :: "(string \<rightharpoonup> string) \<Rightarrow> bool" where
  "complete_config cfg \<longleftrightarrow>
     cfg ''host'' \<noteq> None \<and> cfg ''user'' \<noteq> None \<and> cfg ''password'' \<noteq> None \<and>
     cfg ''database'' \<noteq> None"

definition outcome_ok :: "load_result \<Rightarrow> bool" where
  "outcome_ok r \<longleftrightarrow>
     (status r = ''success'' \<and> error r = None) \<or>
     (status r = ''failed'' \<and> rows_loaded r = 0 \<and> error r \<noteq> None)"

definition is_failed :: "load_result \<Rightarrow> bool" where
  "is_failed r \<longleftrightarrow> status r = ''failed'' \<and> rows_loaded r = 0 \<and> error r \<noteq> None"

definition ok_script :: "int \<Rightarrow> driver_script" where
  "ok_script n =
     \<lparr>connect_error = None, cursor_error = None, executemany_error = None,
      commit_error = None, rowcount = n, cursor_close_error = None, conn_close_error = None\<rparr>"

definition full_config :: "string \<rightharpoonup> string" where
  "full_config = [''host'' \<mapsto> ''localhost'', ''user'' \<mapsto> ''root'', ''password'' \<mapsto> ''pw'',
                  ''database'' \<mapsto> ''TBWalmart'']"

text \<open>
  The statements of the two \<open>try\<close> bodies, the result built from what the body raised,
  and a script whose \<open>executemany\<close> fails.
\<close>

definition dimension_steps :: "(string \<rightharpoonup> string) \<Rightarrow> driver_script \<Rightarrow> string \<Rightarrow> (py_error + driver_event) list" where
  "dimension_steps cfg drv table_name =
     connect_args cfg @
     [driver_call Connect (connect_error drv), driver_call Cursor (cursor_error drv)] @
     sql_binding table_name @
     [driver_call Executemany (executemany_error drv),
      driver_call Commit (commit_error drv),
      driver_call CursorClose (cursor_close_error drv),
      driver_call ConnClose (conn_close_error drv)]"

definition fact_steps :: "(string \<rightharpoonup> string) \<Rightarrow> driver_script \<Rightarrow> (py_error + driver_event) list" where
  "fact_steps cfg drv =
     connect_args cfg @
     [driver_call Connect (connect_error drv), driver_call Cursor (cursor_error drv),
      driver_call Executemany (executemany_error drv),
      driver_call Commit (commit_error drv),
      driver_call CursorClose (cursor_close_error drv),
      driver_call ConnClose (conn_close_error drv)]"

definition finish :: "nat \<Rightarrow> string \<Rightarrow> int \<Rightarrow> py_error option \<Rightarrow> load_result" where
  "finish tid tbl n raised =
     (case raised of None \<Rightarrow> success_result tid tbl n | Some e \<Rightarrow> failed_result tid tbl e)"

definition failing_script :: driver_script where
  "failing_script = (ok_script 0)\<lparr>executemany_error := Some ''Duplicate entry''\<rparr>"

text \<open>
  A store that accepts every batch and reports as many affected rows as it was given, and
  a loader as \<open>__init__\<close> leaves it.
\<close>

definition reliable_store :: "(string \<Rightarrow> nat \<Rightarrow> 'v dataframe \<Rightarrow> driver_script) \<Rightarrow> bool" where
  "reliable_store store \<longleftrightarrow>
     (\<forall>t i b. healthy (store t i b) \<and> rowcount (store t i b) = int (len b))"

definition accepting_store :: "string \<Rightarrow> nat \<Rightarrow> int cell dataframe \<Rightarrow> driver_script" where
  "accepting_store t i b = ok_script (int (len b))"

definition fresh_loader :: loader where
  "fresh_loader = new_loader full_config 4"

text \<open>The loader after one load of three store rows.\<close>

definition after_stores :: loader where
  "after_stores = fresh_loader\<lparr>results := [success_result 0 ''Store_Dim'' 3]\<rparr>"







section \<open>The join engine: the two loops in closed form\<close>


lemma py_eq_sym: "py_eq x y = py_eq y x"
  by (cases x; cases y) auto

lemma table_get_empty: "table_get Map.empty v = None"
  by (simp add: table_get_def split: cell.splits)

lemma table_get_build_step:
  "table_get
     ((if table_get h kv = None then h(kv \<mapsto> []) else h)
        (kv \<mapsto> the ((if table_get h kv = None then h(kv \<mapsto> []) else h) kv) @ [r])) v =
   (if py_eq kv v then Some ((case table_get h v of None \<Rightarrow> [] | Some l \<Rightarrow> l) @ [r])
    else table_get h v)"
  by (cases kv; cases v) (auto simp: table_get_def split: option.splits)

lemma bucket_Cons:
  "row_get r k = Inr kv \<Longrightarrow>
   bucket k (r # rows) v = (if py_eq kv v then r # bucket k rows v else bucket k rows v)"
  by (simp add: bucket_def the_key_def)

lemma build_table_Inr:
  "all_keyed k rows \<Longrightarrow>
   \<exists>h'. build_table k rows h = Inr h' \<and>
     (\<forall>v. table_get h' v =
        (if bucket k rows v = [] then table_get h v
         else Some ((case table_get h v of None \<Rightarrow> [] | Some l \<Rightarrow> l) @ bucket k rows v)))"
proof (induction rows arbitrary: h)
  case Nil
  then show ?case by (simp add: bucket_def)
next
  case (Cons r rows)
  from Cons.prems obtain kv where kv: "row_get r k = Inr kv" and rest: "all_keyed k rows"
    by (auto simp: all_keyed_def)
  define h2 where
    "h2 = (if table_get h kv = None then h(kv \<mapsto> []) else h)
            (kv \<mapsto> the ((if table_get h kv = None then h(kv \<mapsto> []) else h) kv) @ [r])"
  have step: "table_get h2 v =
      (if py_eq kv v then Some ((case table_get h v of None \<Rightarrow> [] | Some l \<Rightarrow> l) @ [r])
       else table_get h v)" for v
    unfolding h2_def by (rule table_get_build_step)
  have bt: "build_table k (r # rows) h = build_table k rows h2"
    by (simp add: kv h2_def Let_def)
  from Cons.IH[OF rest, of h2] obtain h' where
    h': "build_table k rows h2 = Inr h'"
    and tg: "\<And>v. table_get h' v =
        (if bucket k rows v = [] then table_get h2 v
         else Some ((case table_get h2 v of None \<Rightarrow> [] | Some l \<Rightarrow> l) @ bucket k rows v))"
    by blast
  have "table_get h' v =
        (if bucket k (r # rows) v = [] then table_get h v
         else Some ((case table_get h v of None \<Rightarrow> [] | Some l \<Rightarrow> l) @ bucket k (r # rows) v))"
    for v
    by (simp add: tg step bucket_Cons[OF kv] split: option.splits)
  with bt h' show ?case by simp
qed

lemma build_table_keyed:
  "build_table k rows h = Inr h' \<Longrightarrow> all_keyed k rows"
proof (induction rows arbitrary: h)
  case Nil
  then show ?case by (simp add: all_keyed_def)
next
  case (Cons r rows)
  then show ?case
    by (auto simp: all_keyed_def Let_def split: sum.splits)
qed

lemma probe_Inr:
  "all_keyed k rows \<Longrightarrow>
   probe swap k h rows acc = Inr (acc @ concat (map (matches swap h k) rows))"
proof (induction rows arbitrary: acc)
  case Nil
  then show ?case by simp
next
  case (Cons r rows)
  from Cons.prems obtain v where v: "row_get r k = Inr v" and rest: "all_keyed k rows"
    by (auto simp: all_keyed_def)
  have tk: "the_key k r = v" by (simp add: the_key_def v)
  show ?case
    by (simp add: v Cons.IH[OF rest] matches_def tk split: option.splits)
qed

lemma probe_keyed:
  "probe swap k h rows acc = Inr res \<Longrightarrow> all_keyed k rows"
proof (induction rows arbitrary: acc)
  case Nil
  then show ?case by (simp add: all_keyed_def)
next
  case (Cons r rows)
  then show ?case
    by (auto simp: all_keyed_def split: sum.splits option.splits)
qed

lemma build_table_empty:
  assumes "all_keyed k rows"
  shows "\<exists>h. build_table k rows Map.empty = Inr h \<and>
           (\<forall>swap k'. matches swap h k' =
              (\<lambda>p. map (combine swap p) (bucket k rows (the_key k' p))))"
proof -
  from build_table_Inr[OF assms, of Map.empty] obtain h where
    h: "build_table k rows Map.empty = Inr h"
    and tg: "\<And>v. table_get h v = (if bucket k rows v = [] then None else Some (bucket k rows v))"
    by (auto simp: table_get_empty)
  have "matches swap h k' = (\<lambda>p. map (combine swap p) (bucket k rows (the_key k' p)))"
    for swap k'
    by (simp add: matches_def tg fun_eq_iff)
  with h show ?thesis by blast
qed

lemma combine_sides:
  "combine False p = (\<lambda>b. dict_merge (to_dict b) (to_dict p))"
  "combine True p = (\<lambda>b. dict_merge (to_dict p) (to_dict b))"
  by (simp_all add: combine_def fun_eq_iff)

lemma hash_join_iff:
  "hash_join L R lk rk jt = Inr rows \<longleftrightarrow>
   all_keyed lk (iterrows L) \<and> all_keyed rk (iterrows R) \<and>
   rows = (if len L \<le> len R
           then concat (map (\<lambda>r. map (\<lambda>l. dict_merge (to_dict l) (to_dict r))
                                   (bucket lk (iterrows L) (the_key rk r))) (iterrows R))
           else concat (map (\<lambda>l. map (\<lambda>r. dict_merge (to_dict l) (to_dict r))
                                   (bucket rk (iterrows R) (the_key lk l))) (iterrows L)))"
proof (cases "len L \<le> len R")
  case True
  show ?thesis
  proof (cases "all_keyed lk (iterrows L)")
    case bk: True
    from build_table_empty[OF bk] obtain h where
      h: "build_table lk (iterrows L) Map.empty = Inr h"
      and m: "\<And>swap k'. matches swap h k' =
                (\<lambda>p. map (combine swap p) (bucket lk (iterrows L) (the_key k' p)))"
      by blast
    show ?thesis
    proof (cases "all_keyed rk (iterrows R)")
      case pk: True
      show ?thesis using True bk pk
        by (auto simp: hash_join_def h probe_Inr m combine_sides)
    next
      case False
      then show ?thesis using True bk
        by (auto simp: hash_join_def h dest: probe_keyed)
    qed
  next
    case False
    then show ?thesis using True
      by (auto simp: hash_join_def split: sum.splits dest: build_table_keyed)
  qed
next
  case False
  show ?thesis
  proof (cases "all_keyed rk (iterrows R)")
    case bk: True
    from build_table_empty[OF bk] obtain h where
      h: "build_table rk (iterrows R) Map.empty = Inr h"
      and m: "\<And>swap k'. matches swap h k' =
                (\<lambda>p. map (combine swap p) (bucket rk (iterrows R) (the_key k' p)))"
      by blast
    show ?thesis
    proof (cases "all_keyed lk (iterrows L)")
      case pk: True
      show ?thesis using False bk pk
        by (auto simp: hash_join_def h probe_Inr m combine_sides)
    next
      case False
      then show ?thesis using \<open>\<not> len L \<le> len R\<close> bk
        by (auto simp: hash_join_def h dest: probe_keyed)
    qed
  next
    case False
    then show ?thesis using \<open>\<not> len L \<le> len R\<close>
      by (auto simp: hash_join_def split: sum.splits dest: build_table_keyed)
  qed
qed





lemma filter_zip_count:
  "length vals = length cols \<Longrightarrow>
   length (filter (\<lambda>cv. fst cv = k) (zip cols vals)) = count_list cols k"
  by (induction vals cols rule: list_induct2) auto

lemma row_get_zip:
  assumes "length vals = length cols" and "count_list cols k = 1"
  shows "\<exists>v. row_get (zip cols vals) k = Inr v"
proof -
  have "length (filter (\<lambda>cv. fst cv = k) (zip cols vals)) = 1"
    using filter_zip_count[OF assms(1)] assms(2) by simp
  then obtain cv where "filter (\<lambda>cv. fst cv = k) (zip cols vals) = [cv]"
    by (cases "filter (\<lambda>cv. fst cv = k) (zip cols vals)") auto
  then show ?thesis by (simp add: row_get_def)
qed

lemma frame_all_keyed:
  "wf_frame df \<Longrightarrow> has_column df k \<Longrightarrow> all_keyed k (iterrows df)"
  by (auto simp: wf_frame_def has_column_def all_keyed_def iterrows_def list_all_iff
           intro!: row_get_zip)

lemma map_of_dict_set: "map_of (dict_set k v d) = (map_of d)(k \<mapsto> v)"
  by (induction d) (auto simp: fun_eq_iff)

lemma map_of_dict_merge: "map_of (dict_merge a b) = map_of a ++ map_of (rev b)"
  unfolding dict_merge_def
proof (induction b arbitrary: a)
  case Nil
  show ?case by simp
next
  case (Cons kv b)
  show ?case
    by (cases kv) (simp add: Cons.IH map_of_dict_set fun_eq_iff map_add_def split: option.splits)
qed

lemma keys_dict_set:
  "map fst (dict_set k v d) = (if k \<in> set (map fst d) then map fst d else map fst d @ [k])"
  by (induction d) auto

lemma map_of_rev_last:
  "map_of (rev r) k =
     (case filter (\<lambda>cv. fst cv = k) r of [] \<Rightarrow> None | x # xs \<Rightarrow> Some (snd (last (x # xs))))"
proof (induction r)
  case Nil
  show ?case by simp
next
  case (Cons p ps)
  show ?case
    by (cases p) (auto simp: Cons.IH map_add_def split: list.splits option.splits)
qed

lemma row_get_map_of_rev:
  "row_get r k = Inr v \<Longrightarrow> map_of (rev r) k = Some v"
  by (auto simp: row_get_def map_of_rev_last split: list.splits)

lemma dict_get_to_dict: "dict_get (to_dict r) = map_of (rev r)"
  by (simp add: dict_get_def to_dict_def map_of_dict_merge fun_eq_iff)

lemma distinct_dict_set:
  "distinct (map fst d) \<Longrightarrow> distinct (map fst (dict_set k v d))"
  by (simp add: keys_dict_set)

lemma distinct_dict_merge:
  "distinct (map fst a) \<Longrightarrow> distinct (map fst (dict_merge a b))"
  unfolding dict_merge_def
  by (induction b arbitrary: a) (simp_all add: distinct_dict_set)

lemma distinct_to_dict: "distinct (map fst (to_dict r))"
  by (simp add: to_dict_def distinct_dict_merge)

lemma map_of_rev_distinct: "distinct (map fst d) \<Longrightarrow> map_of (rev d) = map_of d"
proof (induction d)
  case Nil
  show ?case by simp
next
  case (Cons p d)
  obtain a b where p: "p = (a, b)" by (cases p)
  from Cons.prems p have fresh: "map_of d a = None" and dd: "distinct (map fst d)"
    by (auto simp: map_of_eq_None_iff)
  have ih: "map_of (rev d) = map_of d" by (rule Cons.IH[OF dd])
  show ?case
  proof
    fix x
    show "map_of (rev (p # d)) x = map_of (p # d) x"
      using fresh by (cases "x = a") (auto simp: p ih map_add_def split: option.splits)
  qed
qed

lemma dict_get_merge:
  "dict_get (dict_merge (to_dict l) (to_dict r)) c =
     (case dict_get (to_dict r) c of None \<Rightarrow> dict_get (to_dict l) c | Some v \<Rightarrow> Some v)"
  by (simp add: dict_get_def map_of_dict_merge map_add_def
        map_of_rev_distinct[OF distinct_to_dict] split: option.splits)

lemma dict_get_merge_right:
  "row_get r k = Inr v \<Longrightarrow> dict_get (dict_merge (to_dict l) (to_dict r)) k = Some v"
  by (simp add: dict_get_merge dict_get_to_dict row_get_map_of_rev)

lemma dom_to_dict: "dict_get (to_dict r) c = None \<longleftrightarrow> c \<notin> fst ` set r"
  by (simp add: dict_get_to_dict map_of_eq_None_iff)

lemma dict_get_merge_shared:
  "c \<in> fst ` set r \<Longrightarrow>
   dict_get (dict_merge (to_dict l) (to_dict r)) c = dict_get (to_dict r) c"
  using dom_to_dict[of r c] by (auto simp: dict_get_merge split: option.splits)

lemma dict_get_merge_left_only:
  "c \<notin> fst ` set r \<Longrightarrow>
   dict_get (dict_merge (to_dict l) (to_dict r)) c = dict_get (to_dict l) c"
  using dom_to_dict[of r c] by (auto simp: dict_get_merge split: option.splits)












text \<open>Where the combined rows come from, and the order of their columns.\<close>

lemma dict_set_fresh: "k \<notin> set (map fst d) \<Longrightarrow> dict_set k v d = d @ [(k, v)]"
  by (induction d) auto

lemma dict_merge_distinct:
  "distinct (map fst (a @ b)) \<Longrightarrow> dict_merge a b = a @ b"
  unfolding dict_merge_def
proof (induction b arbitrary: a)
  case Nil
  show ?case by simp
next
  case (Cons kv b)
  have "dict_set (fst kv) (snd kv) a = a @ [kv]"
    using Cons.prems by (simp add: dict_set_fresh)
  moreover have "distinct (map fst ((a @ [kv]) @ b))" using Cons.prems by simp
  ultimately show ?case using Cons.IH[of "a @ [kv]"] by simp
qed

lemma to_dict_distinct: "distinct (map fst r) \<Longrightarrow> to_dict r = r"
  by (simp add: to_dict_def dict_merge_distinct)

lemma keys_dict_merge:
  "distinct (map fst b) \<Longrightarrow>
   map fst (dict_merge a b) = map fst a @ filter (\<lambda>c. c \<notin> set (map fst a)) (map fst b)"
  unfolding dict_merge_def
proof (induction b arbitrary: a)
  case Nil
  show ?case by simp
next
  case (Cons kv b)
  from Cons.prems have d: "distinct (map fst b)" and nk: "fst kv \<notin> set (map fst b)"
    by simp_all
  show ?case
  proof (cases "fst kv \<in> set (map fst a)")
    case True
    then show ?thesis using Cons.IH[OF d, of "dict_set (fst kv) (snd kv) a"]
      by (simp add: keys_dict_set)
  next
    case False
    have "filter (\<lambda>c. c \<noteq> fst kv \<and> c \<notin> set (map fst a)) (map fst b) =
          filter (\<lambda>c. c \<notin> set (map fst a)) (map fst b)"
    proof (rule filter_cong[OF refl])
      fix c assume "c \<in> set (map fst b)"
      with nk have "c \<noteq> fst kv" by blast
      then show "(c \<noteq> fst kv \<and> c \<notin> set (map fst a)) = (c \<notin> set (map fst a))" by simp
    qed
    then show ?thesis using False Cons.IH[OF d, of "dict_set (fst kv) (snd kv) a"]
      by (simp add: keys_dict_set conj_commute)
  qed
qed

lemma iterrows_labels:
  "wf_frame df \<Longrightarrow> r \<in> set (iterrows df) \<Longrightarrow> map fst r = columns df"
  by (auto simp: wf_frame_def iterrows_def list_all_iff)

lemma hash_join_rows:
  assumes "hash_join L R lk rk jt = Inr rows" and "row \<in> set rows"
  shows "\<exists>l\<in>set (iterrows L). \<exists>r\<in>set (iterrows R).
           row = dict_merge (to_dict l) (to_dict r) \<and>
           row_get l lk = Inr (the_key lk l) \<and> row_get r rk = Inr (the_key rk r) \<and>
           py_eq (the_key lk l) (the_key rk r)"
proof -
  from assms(1) have a: "all_keyed lk (iterrows L)" and b: "all_keyed rk (iterrows R)"
    by (simp_all add: hash_join_iff)
  have keyed: "row_get x k = Inr (the_key k x)" if "all_keyed k xs" "x \<in> set xs"
    for k and x :: "'a cell row" and xs
    using that by (auto simp: all_keyed_def list_all_iff the_key_def)
  show ?thesis
  proof (cases "len L \<le> len R")
    case True
    with assms have "row \<in> set (concat (map (\<lambda>r. map (\<lambda>l. dict_merge (to_dict l) (to_dict r))
                                   (bucket lk (iterrows L) (the_key rk r))) (iterrows R)))"
      by (simp add: hash_join_iff)
    then obtain l r where "r \<in> set (iterrows R)" "l \<in> set (iterrows L)"
      "py_eq (the_key lk l) (the_key rk r)" "row = dict_merge (to_dict l) (to_dict r)"
      by (auto simp: bucket_def)
    then show ?thesis using keyed[OF a] keyed[OF b] by blast
  next
    case False
    with assms have "row \<in> set (concat (map (\<lambda>l. map (\<lambda>r. dict_merge (to_dict l) (to_dict r))
                                   (bucket rk (iterrows R) (the_key lk l))) (iterrows L)))"
      by (simp add: hash_join_iff)
    then obtain l r where "r \<in> set (iterrows R)" "l \<in> set (iterrows L)"
      "py_eq (the_key rk r) (the_key lk l)" "row = dict_merge (to_dict l) (to_dict r)"
      by (auto simp: bucket_def)
    then show ?thesis using keyed[OF a] keyed[OF b] py_eq_sym[of "the_key rk r" "the_key lk l"]
      by blast
  qed
qed

lemma inner_loop_rows:
  "inner_loop cond l rs acc = Inr res \<Longrightarrow> row \<in> set res \<Longrightarrow>
   row \<in> set acc \<or>
   (\<exists>r\<in>set rs. cond l r = Inr True \<and> row = dict_merge (to_dict l) (to_dict r))"
proof (induction rs arbitrary: acc)
  case Nil
  then show ?case by simp
next
  case (Cons r rs)
  from Cons.prems(1) obtain b where b: "cond l r = Inr b"
    and rest: "inner_loop cond l rs
        (if b then acc @ [dict_merge (to_dict l) (to_dict r)] else acc) = Inr res"
    by (auto split: sum.splits)
  from Cons.IH[OF rest Cons.prems(2)] b show ?case
    by (auto split: if_splits)
qed

lemma outer_loop_rows:
  "outer_loop cond ls rs acc = Inr res \<Longrightarrow> row \<in> set res \<Longrightarrow>
   row \<in> set acc \<or>
   (\<exists>l\<in>set ls. \<exists>r\<in>set rs. cond l r = Inr True \<and> row = dict_merge (to_dict l) (to_dict r))"
proof (induction ls arbitrary: acc)
  case Nil
  then show ?case by simp
next
  case (Cons l ls)
  from Cons.prems(1) obtain acc' where inner: "inner_loop cond l rs acc = Inr acc'"
    and rest: "outer_loop cond ls rs acc' = Inr res"
    by (auto split: sum.splits)
  from Cons.IH[OF rest Cons.prems(2)] inner_loop_rows[OF inner, of row] show ?case
    by auto
qed

lemma nested_loop_join_rows:
  assumes "nested_loop_join L R cond = Inr rows" and "row \<in> set rows"
  shows "\<exists>l\<in>set (iterrows L). \<exists>r\<in>set (iterrows R).
           cond l r = Inr True \<and> row = dict_merge (to_dict l) (to_dict r)"
  using outer_loop_rows[of cond "iterrows L" "iterrows R" "[]" rows row] assms
  by (simp add: nested_loop_join_def)

text \<open>Rows of a frame that lacks the key column.\<close>

lemma row_get_missing:
  "k \<notin> set cols \<Longrightarrow> row_get (zip cols vals) k = Inl (KeyError k)"
proof -
  assume "k \<notin> set cols"
  then have "filter (\<lambda>cv. fst cv = k) (zip cols vals) = []"
    by (auto simp: filter_empty_conv dest: set_zip_leftD)
  then show ?thesis by (simp add: row_get_def)
qed

lemma distinct_count_one: "distinct xs \<Longrightarrow> x \<in> set xs \<Longrightarrow> count_list xs x = 1"
  by (induction xs) auto

lemma frame_keyed_or_empty:
  assumes "wf_frame df" and "distinct (columns df)"
    and "k \<in> set (columns df) \<or> data df = []"
  shows "all_keyed k (iterrows df)"
proof (cases "data df = []")
  case True
  then show ?thesis by (simp add: all_keyed_def iterrows_def)
next
  case False
  with assms have "has_column df k" by (simp add: has_column_def distinct_count_one)
  with assms(1) show ?thesis by (rule frame_all_keyed)
qed

lemma frame_first_row_missing:
  assumes "k \<notin> set (columns df)" and "data df \<noteq> []"
  shows "\<exists>r rs. iterrows df = r # rs \<and> row_get r k = Inl (KeyError k)"
proof -
  from assms(2) obtain vals rest where "data df = vals # rest" by (cases "data df") auto
  then have "iterrows df =
      zip (columns df) (map (upcast df) vals) #
      map (\<lambda>r. zip (columns df) (map (upcast df) r)) rest"
    by (simp add: iterrows_def)
  with row_get_missing[OF assms(1)] show ?thesis by blast
qed

lemma build_table_first_missing:
  "row_get r k = Inl e \<Longrightarrow> build_table k (r # rs) h = Inl e"
  by simp

lemma probe_first_missing:
  "row_get r k = Inl e \<Longrightarrow> probe swap k h (r # rs) acc = Inl e"
  by simp

section \<open>The join engine: properties\<close>

lemma example_frames_wf:
  "wf_frame orders_frame" "wf_frame items_frame"
  "has_column orders_frame ''k''" "has_column items_frame ''k''"
  by (simp_all add: wf_frame_def has_column_def orders_frame_def items_frame_def)







text \<open>
  The key values that count are the ones the rows hand out, not the stored ones. The
  stored key \<open>2^53 + 1\<close> of \<open>wide_key_left\<close> occurs nowhere in \<open>wide_key_right\<close>, and
  yet the join emits a combined row: the row hands the key out as \<open>2^53\<close>.
\<close>

lemma hash_join_wide_key:
  "stored_values wide_key_left ''k'' = [Value 9007199254740993] \<and>
   stored_values wide_key_right ''k'' = [Value 9007199254740992] \<and>
   column_values wide_key_left ''k'' = [Value 9007199254740992] \<and>
   column_values wide_key_right ''k'' = [Value 9007199254740992] \<and>
   hash_join wide_key_left wide_key_right ''k'' ''k'' ''inner'' =
     Inr [[(''k'', Value 9007199254740992), (''x'', Value 5)]]"
  by (simp add: stored_values_def column_values_def iterrows_def wide_key_left_def
        wide_key_right_def hash_join_def len_def row_get_def table_get_def combine_def
        dict_merge_def to_dict_def)

lemma hash_join_example_swap:
  "hash_join orders_frame items_frame ''k'' ''k'' ''inner'' =
     Inr [[(''k'', Value 2), (''a'', Value 20), (''b'', Value 200)], [(''k'', Value 2), (''a'', Value 30), (''b'', Value 200)]]"
  by (simp add: orders_frame_def items_frame_def hash_join_def len_def iterrows_def
        row_get_def table_get_def combine_def dict_merge_def to_dict_def)

lemma hash_join_example_noswap:
  "hash_join items_frame orders_frame ''k'' ''k'' ''inner'' =
     Inr [[(''k'', Value 2), (''b'', Value 200), (''a'', Value 20)], [(''k'', Value 2), (''b'', Value 200), (''a'', Value 30)]]"
  by (simp add: orders_frame_def items_frame_def hash_join_def len_def iterrows_def
        row_get_def table_get_def combine_def dict_merge_def to_dict_def)

lemma shared_hash_join:
  "hash_join shared_left shared_right ''k'' ''k'' ''inner'' = Inr [[(''k'', Value 1), (''x'', Value 99)]]"
  by (simp add: shared_left_def shared_right_def hash_join_def len_def iterrows_def
        row_get_def table_get_def combine_def dict_merge_def to_dict_def)

lemma shared_nested_loop_join:
  "nested_loop_join shared_left shared_right (key_equality ''k'') =
     Inr [[(''k'', Value 1), (''x'', Value 99)]]"
  by (simp add: shared_left_def shared_right_def nested_loop_join_def iterrows_def
        row_get_def key_equality_def dict_merge_def to_dict_def)

text \<open>
  C6. Whichever side \<open>hash_join\<close> builds its table on, every combined row merges a
  row of the caller's left frame with a row of the caller's right frame, left first: its
  columns are the left frame's columns followed by the right frame's columns that the left
  frame does not have.
\<close>

theorem hash_join_column_order:
  assumes "hash_join L R lk rk jt = Inr rows" and "row \<in> set rows"
  shows "(\<exists>l\<in>set (iterrows L). \<exists>r\<in>set (iterrows R).
            row = dict_merge (to_dict l) (to_dict r)) \<and>
         (wf_frame L \<and> wf_frame R \<and> distinct (columns L) \<and> distinct (columns R) \<longrightarrow>
            map fst row = columns L @ filter (\<lambda>c. c \<notin> set (columns L)) (columns R))"
proof -
  from hash_join_rows[OF assms] obtain l r where
    l: "l \<in> set (iterrows L)" and r: "r \<in> set (iterrows R)"
    and row: "row = dict_merge (to_dict l) (to_dict r)"
    by blast
  have "map fst row = columns L @ filter (\<lambda>c. c \<notin> set (columns L)) (columns R)"
    if wf: "wf_frame L" "wf_frame R" and d: "distinct (columns L)" "distinct (columns R)"
  proof -
    have ll: "map fst l = columns L" and rl: "map fst r = columns R"
      using wf l r by (simp_all add: iterrows_labels)
    with d have "to_dict l = l" "to_dict r = r" by (simp_all add: to_dict_distinct)
    then show ?thesis using keys_dict_merge[of r l] d ll rl by (simp add: row)
  qed
  with l r row show ?thesis by blast
qed

theorem hash_join_column_order_witness:
  "hash_join orders_frame items_frame ''k'' ''k'' ''inner'' =
     Inr [[(''k'', Value 2), (''a'', Value 20), (''b'', Value 200)], [(''k'', Value 2), (''a'', Value 30), (''b'', Value 200)]] \<and>
   len items_frame < len orders_frame \<and>
   map fst [(''k'', Value (2::int)), (''a'', Value 20), (''b'', Value 200)] =
     columns orders_frame @ filter (\<lambda>c. c \<notin> set (columns orders_frame)) (columns items_frame) \<and>
   hash_join items_frame orders_frame ''k'' ''k'' ''inner'' =
     Inr [[(''k'', Value 2), (''b'', Value 200), (''a'', Value 20)], [(''k'', Value 2), (''b'', Value 200), (''a'', Value 30)]] \<and>
   map fst [(''k'', Value (2::int)), (''b'', Value 200), (''a'', Value 20)] =
     columns items_frame @ filter (\<lambda>c. c \<notin> set (columns items_frame)) (columns orders_frame)"
proof -
  have d: "distinct (columns orders_frame)" "distinct (columns items_frame)"
    by (simp_all add: orders_frame_def items_frame_def)
  have "map fst [(''k'', Value (2::int)), (''a'', Value 20), (''b'', Value 200)] =
     columns orders_frame @ filter (\<lambda>c. c \<notin> set (columns orders_frame)) (columns items_frame)"
    using hash_join_column_order[OF hash_join_example_swap,
            of "[(''k'', Value 2), (''a'', Value 20), (''b'', Value 200)]"] example_frames_wf d
    by simp
  moreover have "map fst [(''k'', Value (2::int)), (''b'', Value 200), (''a'', Value 20)] =
     columns items_frame @ filter (\<lambda>c. c \<notin> set (columns items_frame)) (columns orders_frame)"
    using hash_join_column_order[OF hash_join_example_noswap,
            of "[(''k'', Value 2), (''b'', Value 200), (''a'', Value 20)]"] example_frames_wf d
    by simp
  moreover have "len items_frame < len orders_frame"
    by (simp add: len_def orders_frame_def items_frame_def)
  ultimately show ?thesis
    using hash_join_example_swap hash_join_example_noswap by blast
qed

text \<open>
  C10. In both join paths a combined row is the right-biased merge of a left row and a
  right row: under every column of the right row, also one that the left row has too, it
  holds the right row's value, and the left row's value for that column is lost.
\<close>

theorem join_merge_right_biased:
  assumes "hash_join L R lk rk jt = Inr rows \<or> nested_loop_join L R cond = Inr rows"
    and "row \<in> set rows"
  shows "\<exists>l\<in>set (iterrows L). \<exists>r\<in>set (iterrows R).
           row = dict_merge (to_dict l) (to_dict r) \<and>
           (\<forall>c\<in>fst ` set r. dict_get row c = dict_get (to_dict r) c) \<and>
           (\<forall>c v. row_get r c = Inr v \<longrightarrow> dict_get row c = Some v)"
proof -
  from assms obtain l r where
    l: "l \<in> set (iterrows L)" and r: "r \<in> set (iterrows R)"
    and row: "row = dict_merge (to_dict l) (to_dict r)"
    using hash_join_rows[of L R lk rk jt rows row] nested_loop_join_rows[of L R cond rows row]
    by blast
  have "\<forall>c\<in>fst ` set r. dict_get row c = dict_get (to_dict r) c"
    unfolding row using dict_get_merge_shared[of _ r l] by blast
  moreover have "\<forall>c v. row_get r c = Inr v \<longrightarrow> dict_get row c = Some v"
    unfolding row using dict_get_merge_right[of r _ _ l] by blast
  ultimately show ?thesis using l r row by blast
qed

theorem join_merge_right_biased_witness:
  "hash_join shared_left shared_right ''k'' ''k'' ''inner'' = Inr [[(''k'', Value 1), (''x'', Value 99)]] \<and>
   nested_loop_join shared_left shared_right (key_equality ''k'') =
     Inr [[(''k'', Value 1), (''x'', Value 99)]] \<and>
   iterrows shared_left = [[(''k'', Value 1), (''x'', Value 10)]] \<and>
   iterrows shared_right = [[(''k'', Value 1), (''x'', Value 99)]] \<and>
   dict_get [(''k'', Value 1), (''x'', Value (99::int))] ''x'' = Some (Value 99)"
proof -
  have rows: "iterrows shared_left = [[(''k'', Value 1), (''x'', Value 10)]]"
    "iterrows shared_right = [[(''k'', Value 1), (''x'', Value 99)]]"
    by (simp_all add: iterrows_def shared_left_def shared_right_def)
  have x: "row_get [(''k'', Value 1), (''x'', Value (99::int))] ''x'' = Inr (Value 99)"
    by (simp add: row_get_def)
  have "\<forall>c v. row_get [(''k'', Value 1), (''x'', Value (99::int))] c = Inr v \<longrightarrow>
           dict_get [(''k'', Value 1), (''x'', Value (99::int))] c = Some v"
    using join_merge_right_biased[where L = shared_left and R = shared_right
            and lk = "''k''" and rk = "''k''" and jt = "''inner''"
            and cond = "key_equality ''k''"
            and rows = "[[(''k'', Value 1), (''x'', Value 99)]]" and row = "[(''k'', Value 1), (''x'', Value 99)]"]
          shared_hash_join shared_nested_loop_join
    by (simp add: rows)
  with x have "dict_get [(''k'', Value 1), (''x'', Value (99::int))] ''x'' = Some (Value 99)" by blast
  then show ?thesis using rows shared_hash_join shared_nested_loop_join by blast
qed

text \<open>
  C7, as the code has it. The join inspects a frame only through its rows. When a frame
  with at least one row lacks its key column, the call fails with the \<open>KeyError\<close> of a
  missing key column and returns no result; the frames have unique column labels.
\<close>

theorem hash_join_missing_key:
  assumes wf: "wf_frame L" "wf_frame R"
    and d: "distinct (columns L)" "distinct (columns R)"
    and missing: "(lk \<notin> set (columns L) \<and> data L \<noteq> []) \<or>
                  (rk \<notin> set (columns R) \<and> data R \<noteq> [])"
  shows "hash_join L R lk rk jt = Inl (KeyError lk) \<or>
         hash_join L R lk rk jt = Inl (KeyError rk)"
proof -
  have build_fails: "build_table k (iterrows df) h = Inl (KeyError k)"
    if "k \<notin> set (columns df)" "data df \<noteq> []"
    for k and df :: "'a cell dataframe" and h
    using frame_first_row_missing[OF that] by auto
  have probe_fails: "probe swap k h (iterrows df) [] = Inl (KeyError k)"
    if "k \<notin> set (columns df)" "data df \<noteq> []"
    for k swap and df :: "'a cell dataframe" and h
    using frame_first_row_missing[OF that] by auto
  have build_ok: "\<exists>h. build_table k (iterrows df) Map.empty = Inr h"
    if "wf_frame df" "distinct (columns df)" "\<not> (k \<notin> set (columns df) \<and> data df \<noteq> [])"
    for k and df :: "'a cell dataframe"
    using build_table_empty[OF frame_keyed_or_empty[OF that(1,2), of k]] that(3)
    by blast
  show ?thesis
  proof (cases "len L \<le> len R")
    case True
    show ?thesis
    proof (cases "lk \<notin> set (columns L) \<and> data L \<noteq> []")
      case bad: True
      then show ?thesis using True by (simp add: hash_join_def build_fails)
    next
      case False
      with missing have r: "rk \<notin> set (columns R)" "data R \<noteq> []" by blast+
      from build_ok[OF wf(1) d(1) False] obtain h
        where "build_table lk (iterrows L) Map.empty = Inr h" by blast
      then show ?thesis using True by (simp add: hash_join_def probe_fails[OF r])
    qed
  next
    case swap: False
    show ?thesis
    proof (cases "rk \<notin> set (columns R) \<and> data R \<noteq> []")
      case bad: True
      then show ?thesis using swap by (simp add: hash_join_def build_fails)
    next
      case False
      with missing have l: "lk \<notin> set (columns L)" "data L \<noteq> []" by blast+
      from build_ok[OF wf(2) d(2) False] obtain h
        where "build_table rk (iterrows R) Map.empty = Inr h" by blast
      then show ?thesis using swap by (simp add: hash_join_def probe_fails[OF l])
    qed
  qed
qed

theorem hash_join_missing_key_witness:
  "wf_frame orders_frame \<and> wf_frame items_frame \<and>
   distinct (columns orders_frame) \<and> distinct (columns items_frame) \<and>
   ''b'' \<notin> set (columns orders_frame) \<and> data orders_frame \<noteq> [] \<and>
   hash_join orders_frame items_frame ''b'' ''b'' ''inner'' = Inl (KeyError ''b'')"
proof -
  have d: "distinct (columns orders_frame)" "distinct (columns items_frame)"
    and m: "''b'' \<notin> set (columns orders_frame) \<and> data orders_frame \<noteq> []"
    by (simp_all add: orders_frame_def items_frame_def)
  from hash_join_missing_key[OF example_frames_wf(1,2) d disjI1[OF m], of "''b''" "''inner''"]
  show ?thesis using example_frames_wf d m by simp
qed

text \<open>
  A frame without rows is never inspected: it may lack the key column and the join still
  returns an empty result.
\<close>

theorem hash_join_missing_key_counterexample:
  "''k'' \<notin> set (columns no_rows_frame) \<and> \<not> has_column no_rows_frame ''k'' \<and>
   has_column items_frame ''k'' \<and>
   hash_join no_rows_frame items_frame ''k'' ''k'' ''inner'' = Inr []"
  by (simp add: no_rows_frame_def items_frame_def has_column_def hash_join_def len_def
        iterrows_def row_get_def table_get_def)

section \<open>The batch loader: properties\<close>

lemma run_body_cases:
  "run_body steps = (raised, events) \<Longrightarrow>
   (raised = None \<and> (\<forall>s\<in>set steps. \<not> isl s) \<and> events = map projr steps) \<or>
   (\<exists>pre e post. steps = map Inr pre @ Inl e # post \<and> raised = Some e \<and> events = pre)"
proof (induction steps arbitrary: raised events rule: run_body.induct)
  case 1
  then show ?case by simp
next
  case (2 e rest)
  then have "Inl e # rest = map Inr [] @ Inl e # rest \<and> raised = Some e \<and> events = []"
    by simp
  then show ?case by blast
next
  case (3 ev rest)
  obtain r evs where re: "run_body rest = (r, evs)" by (cases "run_body rest")
  with 3 have raised: "raised = r" and events: "events = ev # evs" by simp_all
  from "3.IH"[OF re] show ?case
  proof
    assume "r = None \<and> (\<forall>s\<in>set rest. \<not> isl s) \<and> evs = map projr rest"
    then show ?thesis using raised events by simp
  next
    assume "\<exists>pre e post. rest = map Inr pre @ Inl e # post \<and> r = Some e \<and> evs = pre"
    then obtain pre e post where "rest = map Inr pre @ Inl e # post" "r = Some e" "evs = pre"
      by blast
    then have "Inr ev # rest = map Inr (ev # pre) @ Inl e # post \<and> raised = Some e \<and>
               events = ev # pre"
      using raised events by simp
    then show ?thesis by blast
  qed
qed

lemma run_body_raises:
  "Inl e \<in> set steps \<Longrightarrow> \<exists>e'. fst (run_body steps) = Some e'"
  by (induction steps rule: run_body.induct) (auto split: prod.splits)

lemma run_body_all_ok:
  "\<forall>s\<in>set steps. \<not> isl s \<Longrightarrow> run_body steps = (None, map projr steps)"
  by (induction steps rule: run_body.induct) (auto split: prod.splits)

lemma finish_outcome:
  "outcome_ok (case raised of None \<Rightarrow> success_result tid tbl n | Some e \<Rightarrow> failed_result tid tbl e)"
  by (cases raised) (simp_all add: outcome_ok_def success_result_def failed_result_def)

lemma finish_failed:
  "raised = Some e \<Longrightarrow>
   is_failed (case raised of None \<Rightarrow> success_result tid tbl n | Some e \<Rightarrow> failed_result tid tbl e)"
  by (simp add: is_failed_def failed_result_def)

lemma finish_labels:
  "thread_id (case raised of None \<Rightarrow> success_result tid tbl n | Some e \<Rightarrow> failed_result tid tbl e) = tid"
  "table (case raised of None \<Rightarrow> success_result tid tbl n | Some e \<Rightarrow> failed_result tid tbl e) = tbl"
  by (cases raised; simp add: success_result_def failed_result_def)+

lemma driver_call_raises: "err \<noteq> None \<Longrightarrow> \<exists>e. driver_call ev err = Inl e"
  by (cases err) (simp_all add: driver_call_def)

lemma connect_args_complete: "complete_config cfg \<Longrightarrow> connect_args cfg = []"
  by (simp add: complete_config_def connect_args_def config_item_def)

lemma load_dimension_batch_steps:
  "load_dimension_batch cfg drv table_name data_batch tid =
     (finish tid table_name (rowcount drv) (fst (run_body (dimension_steps cfg drv table_name))),
      snd (run_body (dimension_steps cfg drv table_name)))"
  by (simp add: load_dimension_batch_def dimension_steps_def finish_def split: prod.splits)

lemma load_fact_batch_steps:
  "load_fact_batch cfg drv data_batch tid =
     (finish tid ''Sales_Fact'' (rowcount drv) (fst (run_body (fact_steps cfg drv))),
      snd (run_body (fact_steps cfg drv)))"
  by (simp add: load_fact_batch_def fact_steps_def finish_def split: prod.splits)

lemma steps_raise:
  assumes "connect_error drv \<noteq> None \<or> executemany_error drv \<noteq> None \<or> commit_error drv \<noteq> None"
  shows "\<exists>e. fst (run_body (dimension_steps cfg drv table_name)) = Some e"
    and "\<exists>e. fst (run_body (fact_steps cfg drv)) = Some e"
proof -
  from assms consider
      (c) m where "connect_error drv = Some m"
    | (e) m where "executemany_error drv = Some m"
    | (k) m where "commit_error drv = Some m"
    by auto
  then have "\<exists>m. Inl (DriverError m) \<in> {driver_call Connect (connect_error drv),
        driver_call Executemany (executemany_error drv), driver_call Commit (commit_error drv)}"
  proof cases
    case c
    then have "driver_call Connect (connect_error drv) = Inl (DriverError m)"
      by (simp add: driver_call_def)
    then show ?thesis by (intro exI[of _ m]) simp
  next
    case e
    then have "driver_call Executemany (executemany_error drv) = Inl (DriverError m)"
      by (simp add: driver_call_def)
    then show ?thesis by (intro exI[of _ m]) simp
  next
    case k
    then have "driver_call Commit (commit_error drv) = Inl (DriverError m)"
      by (simp add: driver_call_def)
    then show ?thesis by (intro exI[of _ m]) simp
  qed
  then obtain m where
    "Inl (DriverError m) \<in> {driver_call Connect (connect_error drv),
        driver_call Executemany (executemany_error drv), driver_call Commit (commit_error drv)}"
    by blast
  then have "Inl (DriverError m) \<in> set (dimension_steps cfg drv table_name)"
    "Inl (DriverError m) \<in> set (fact_steps cfg drv)"
    unfolding dimension_steps_def fact_steps_def by auto
  then show "\<exists>e. fst (run_body (dimension_steps cfg drv table_name)) = Some e"
    and "\<exists>e. fst (run_body (fact_steps cfg drv)) = Some e"
    by (auto dest: run_body_raises)
qed

lemma steps_healthy:
  assumes "complete_config cfg" and "healthy drv"
  shows "table_name \<in> set dimension_tables \<Longrightarrow>
           run_body (dimension_steps cfg drv table_name) =
             (None, [Connect, Cursor, Executemany, Commit, CursorClose, ConnClose])"
    and "run_body (fact_steps cfg drv) =
             (None, [Connect, Cursor, Executemany, Commit, CursorClose, ConnClose])"
  using assms
  by (simp_all add: dimension_steps_def fact_steps_def connect_args_complete healthy_def
        driver_call_def sql_binding_def)

text \<open>
  Both loaders close the connection on the success path and on no other: the connection
  is closed exactly when the result is a success.
\<close>

lemma run_body_events_subset:
  "ev \<in> set (snd (run_body steps)) \<Longrightarrow> Inr ev \<in> set steps"
  by (induction steps rule: run_body.induct) (auto split: prod.splits)

lemma run_body_append:
  "run_body (A @ B) =
     (case run_body A of
        (Some e, evs) \<Rightarrow> (Some e, evs)
      | (None, evs) \<Rightarrow> (case run_body B of (r, evs') \<Rightarrow> (r, evs @ evs')))"
  by (induction A rule: run_body.induct) (auto split: prod.splits option.splits)

lemma driver_call_event: "driver_call ev err = Inr ev' \<Longrightarrow> ev' = ev"
  by (cases err) (simp_all add: driver_call_def)

lemma closes_only_at_end:
  assumes "Inr ConnClose \<notin> set A"
  shows "ConnClose \<in> set (snd (run_body (A @ [driver_call ConnClose cc]))) \<longleftrightarrow>
         fst (run_body (A @ [driver_call ConnClose cc])) = None"
proof -
  obtain r evs where ra: "run_body A = (r, evs)" by (cases "run_body A")
  have notin: "ConnClose \<notin> set evs"
    using run_body_events_subset[of ConnClose A] assms ra by auto
  show ?thesis
  proof (cases r)
    case None
    then show ?thesis
      using ra notin by (cases cc) (simp_all add: run_body_append driver_call_def)
  next
    case (Some e)
    then show ?thesis using ra notin by (simp add: run_body_append)
  qed
qed

lemma fact_steps_split:
  "fact_steps cfg drv =
     (connect_args cfg @
      [driver_call Connect (connect_error drv), driver_call Cursor (cursor_error drv),
       driver_call Executemany (executemany_error drv),
       driver_call Commit (commit_error drv),
       driver_call CursorClose (cursor_close_error drv)]) @
     [driver_call ConnClose (conn_close_error drv)]"
  by (simp add: fact_steps_def)

lemma dimension_steps_split:
  "dimension_steps cfg drv t =
     (connect_args cfg @
      [driver_call Connect (connect_error drv), driver_call Cursor (cursor_error drv)] @
      sql_binding t @
      [driver_call Executemany (executemany_error drv),
       driver_call Commit (commit_error drv),
       driver_call CursorClose (cursor_close_error drv)]) @
     [driver_call ConnClose (conn_close_error drv)]"
  by (simp add: dimension_steps_def)

lemma no_early_close:
  "Inr ConnClose \<notin> set (connect_args cfg)" "Inr ConnClose \<notin> set (sql_binding t)"
  "Inr ConnClose \<noteq> driver_call Connect a" "Inr ConnClose \<noteq> driver_call Cursor b"
  "Inr ConnClose \<noteq> driver_call Executemany c" "Inr ConnClose \<noteq> driver_call Commit d"
  "Inr ConnClose \<noteq> driver_call CursorClose e"
  by (auto simp: connect_args_def config_item_def sql_binding_def driver_call_def
        split: option.splits)

lemma finish_success: "status (finish tid tbl n raised) = ''success'' \<longleftrightarrow> raised = None"
  by (cases raised) (simp_all add: finish_def success_result_def failed_result_def)

lemma connection_closed_iff_success:
  "ConnClose \<in> set (snd (load_fact_batch cfg drv b tid)) \<longleftrightarrow>
     status (fst (load_fact_batch cfg drv b tid)) = ''success''"
  "ConnClose \<in> set (snd (load_dimension_batch cfg drv t b tid)) \<longleftrightarrow>
     status (fst (load_dimension_batch cfg drv t b tid)) = ''success''"
proof -
  show "ConnClose \<in> set (snd (load_fact_batch cfg drv b tid)) \<longleftrightarrow>
     status (fst (load_fact_batch cfg drv b tid)) = ''success''"
    unfolding load_fact_batch_steps fst_conv snd_conv finish_success fact_steps_split
    by (rule closes_only_at_end) (use no_early_close in auto)
  show "ConnClose \<in> set (snd (load_dimension_batch cfg drv t b tid)) \<longleftrightarrow>
     status (fst (load_dimension_batch cfg drv t b tid)) = ''success''"
    unfolding load_dimension_batch_steps fst_conv snd_conv finish_success dimension_steps_split
    by (rule closes_only_at_end) (use no_early_close in auto)
qed

lemma example_scripts:
  "complete_config full_config" "healthy (ok_script n)" "rowcount (ok_script n) = n"
  "executemany_error failing_script \<noteq> None" "''Store_Dim'' \<in> set dimension_tables"
  by (simp_all add: complete_config_def full_config_def healthy_def ok_script_def
        failing_script_def dimension_tables_def)

text \<open>
  C3. \<open>load_dimension_batch\<close> and \<open>load_fact_batch\<close> always return a load result and
  never pass an exception on: the result is either a success without error detail or a
  failure with \<open>rows_loaded = 0\<close> and an error detail. When connecting, executing the
  statement or committing fails, the result is the failure; when nothing fails, it is a
  success that reports the driver's row count.
\<close>

theorem load_batch_never_raises:
  fixes data_batch :: "'v dataframe"
  shows
  "(let r = fst (load_dimension_batch cfg drv table_name data_batch tid) in
      outcome_ok r \<and> thread_id r = tid \<and> table r = table_name \<and>
      (connect_error drv \<noteq> None \<or> executemany_error drv \<noteq> None \<or> commit_error drv \<noteq> None
         \<longrightarrow> is_failed r) \<and>
      (complete_config cfg \<and> healthy drv \<and> table_name \<in> set dimension_tables
         \<longrightarrow> status r = ''success'' \<and> rows_loaded r = rowcount drv \<and> error r = None)) \<and>
   (let r = fst (load_fact_batch cfg drv data_batch tid) in
      outcome_ok r \<and> thread_id r = tid \<and> table r = ''Sales_Fact'' \<and>
      (connect_error drv \<noteq> None \<or> executemany_error drv \<noteq> None \<or> commit_error drv \<noteq> None
         \<longrightarrow> is_failed r) \<and>
      (complete_config cfg \<and> healthy drv
         \<longrightarrow> status r = ''success'' \<and> rows_loaded r = rowcount drv \<and> error r = None))"
proof -
  have dim_fail: "is_failed (fst (load_dimension_batch cfg drv table_name data_batch tid))"
    if "connect_error drv \<noteq> None \<or> executemany_error drv \<noteq> None \<or> commit_error drv \<noteq> None"
    using steps_raise(1)[OF that, of cfg table_name]
    by (auto simp: load_dimension_batch_steps finish_def is_failed_def failed_result_def)
  have fact_fail: "is_failed (fst (load_fact_batch cfg drv data_batch tid))"
    if "connect_error drv \<noteq> None \<or> executemany_error drv \<noteq> None \<or> commit_error drv \<noteq> None"
    using steps_raise(2)[OF that, of cfg]
    by (auto simp: load_fact_batch_steps finish_def is_failed_def failed_result_def)
  have dim_ok: "status (fst (load_dimension_batch cfg drv table_name data_batch tid)) = ''success'' \<and>
      rows_loaded (fst (load_dimension_batch cfg drv table_name data_batch tid)) = rowcount drv \<and>
      error (fst (load_dimension_batch cfg drv table_name data_batch tid)) = None"
    if "complete_config cfg" "healthy drv" "table_name \<in> set dimension_tables"
    using steps_healthy(1)[OF that]
    by (simp add: load_dimension_batch_steps finish_def success_result_def)
  have fact_ok: "status (fst (load_fact_batch cfg drv data_batch tid)) = ''success'' \<and>
      rows_loaded (fst (load_fact_batch cfg drv data_batch tid)) = rowcount drv \<and>
      error (fst (load_fact_batch cfg drv data_batch tid)) = None"
    if "complete_config cfg" "healthy drv"
    using steps_healthy(2)[OF that]
    by (simp add: load_fact_batch_steps finish_def success_result_def)
  have shape:
    "outcome_ok (fst (load_dimension_batch cfg drv table_name data_batch tid))"
    "thread_id (fst (load_dimension_batch cfg drv table_name data_batch tid)) = tid"
    "table (fst (load_dimension_batch cfg drv table_name data_batch tid)) = table_name"
    "outcome_ok (fst (load_fact_batch cfg drv data_batch tid))"
    "thread_id (fst (load_fact_batch cfg drv data_batch tid)) = tid"
    "table (fst (load_fact_batch cfg drv data_batch tid)) = ''Sales_Fact''"
    by (simp_all add: load_dimension_batch_steps load_fact_batch_steps finish_def
          finish_outcome finish_labels)
  show ?thesis
    unfolding Let_def using dim_fail fact_fail dim_ok fact_ok shape by blast
qed

theorem load_batch_never_raises_witness:
  "executemany_error failing_script \<noteq> None \<and>
   is_failed (fst (load_dimension_batch full_config failing_script ''Store_Dim'' items_frame 0)) \<and>
   is_failed (fst (load_fact_batch full_config failing_script items_frame 0)) \<and>
   complete_config full_config \<and> healthy (ok_script 2) \<and>
   ''Store_Dim'' \<in> set dimension_tables \<and>
   status (fst (load_dimension_batch full_config (ok_script 2) ''Store_Dim'' items_frame 0)) =
     ''success'' \<and>
   rows_loaded (fst (load_dimension_batch full_config (ok_script 2) ''Store_Dim'' items_frame 0)) =
     2 \<and>
   status (fst (load_fact_batch full_config (ok_script 2) items_frame 0)) = ''success'' \<and>
   rows_loaded (fst (load_fact_batch full_config (ok_script 2) items_frame 0)) = 2"
  using load_batch_never_raises[where cfg = full_config and drv = failing_script
          and table_name = "''Store_Dim''" and data_batch = items_frame and tid = 0]
        load_batch_never_raises[where cfg = full_config and drv = "ok_script 2"
          and table_name = "''Store_Dim''" and data_batch = items_frame and tid = 0]
        example_scripts(1,4,5) example_scripts(2,3)[of 2]
  by (simp add: Let_def)

text \<open>
  C4, at an input where the code does not do it. \<open>executemany\<close> fails after the
  connection was opened: both loaders return the failure, and the driver calls they
  completed are \<open>connect\<close> and \<open>cursor\<close> only. The connection is not closed.
\<close>

theorem load_batch_leaves_connection_open:
  "load_fact_batch full_config failing_script items_frame 0 =
     (failed_result 0 ''Sales_Fact'' (DriverError ''Duplicate entry''), [Connect, Cursor]) \<and>
   load_dimension_batch full_config failing_script ''Store_Dim'' items_frame 0 =
     (failed_result 0 ''Store_Dim'' (DriverError ''Duplicate entry''), [Connect, Cursor]) \<and>
   Connect \<in> set [Connect, Cursor] \<and> ConnClose \<notin> set [Connect, Cursor]"
  by (simp add: load_fact_batch_def load_dimension_batch_def connect_args_def config_item_def
        full_config_def failing_script_def ok_script_def driver_call_def sql_binding_def
        dimension_tables_def)

section \<open>Partitioning and the parallel load: properties\<close>

lemma py_range_pos:
  "0 < s \<Longrightarrow> py_range a n s = map (\<lambda>i. a + int i * s) [0..<nat ((n - a + s - 1) div s)]"
proof (induction a n s rule: py_range.induct)
  case (1 start stop step)
  show ?case
  proof (cases "start < stop")
    case True
    have cnt: "nat ((stop - start + step - 1) div step) =
               Suc (nat ((stop - (start + step) + step - 1) div step))"
    proof -
      have eq: "stop - start + step - 1 = (stop - start - 1) + step" by simp
      have "(stop - start + step - 1) div step = (stop - start - 1) div step + 1"
        unfolding eq using "1.prems" by (intro div_add_self2) simp
      moreover have "0 \<le> (stop - start - 1) div step"
        using True "1.prems" by (simp add: pos_imp_zdiv_nonneg_iff)
      moreover have "stop - (start + step) + step - 1 = stop - start - 1" by simp
      ultimately show ?thesis by simp
    qed
    have "py_range start stop step = start # py_range (start + step) stop step"
      using True "1.prems" by (subst py_range.simps) simp
    also have "\<dots> = start # map (\<lambda>i. start + step + int i * step)
                          [0..<nat ((stop - (start + step) + step - 1) div step)]"
      using "1.IH"(1) True "1.prems" by simp
    also have "\<dots> = map (\<lambda>i. start + int i * step)
                          [0..<Suc (nat ((stop - (start + step) + step - 1) div step))]"
      by (simp add: upt_conv_Cons map_Suc_upt[symmetric] algebra_simps del: upt_Suc)
    finally show ?thesis by (simp only: cnt)
  next
    case False
    then have "(stop - start + step - 1) div step \<le> (step - 1) div step"
      using "1.prems" by (intro zdiv_mono1) simp_all
    moreover have "(step - 1) div step = 0"
      using "1.prems" by (simp add: div_pos_pos_trivial)
    ultimately have "(stop - start + step - 1) div step \<le> 0" by simp
    moreover have "py_range start stop step = []"
      using False "1.prems" by (subst py_range.simps) simp
    ultimately show ?thesis by simp
  qed
qed

lemma take_drop_nth:
  "take k (drop a xs) = map (\<lambda>j. xs ! j) [a..<min (a + k) (length xs)]"
proof (rule nth_equalityI)
  show "length (take k (drop a xs)) = length (map (\<lambda>j. xs ! j) [a..<min (a + k) (length xs)])"
    by (cases "a + k \<le> length xs") auto
next
  fix i assume "i < length (take k (drop a xs))"
  then have i: "i < k" "a + i < length xs" by auto
  then have "a + i < min (a + k) (length xs)" by simp
  then have "map (\<lambda>j. xs ! j) [a..<min (a + k) (length xs)] ! i = xs ! (a + i)"
    by (simp add: less_diff_conv add.commute)
  moreover have "take k (drop a xs) ! i = xs ! (a + i)" using i by simp
  ultimately show "take k (drop a xs) ! i = map (\<lambda>j. xs ! j) [a..<min (a + k) (length xs)] ! i"
    by simp
qed

lemma concat_chunks:
  "concat (map (\<lambda>i. take k (drop (i * k) xs)) [0..<m]) = take (m * k) xs"
proof (induction m)
  case 0
  show ?case by simp
next
  case (Suc m)
  have "take (m * k) xs @ take k (drop (m * k) xs) = take (m * k + k) xs"
    by (simp add: take_add)
  then show ?case using Suc by (simp add: add.commute)
qed

lemma ceil_div_nat:
  assumes "0 < s"
  shows "nat ((int n + s - 1) div s) = (n + nat s - 1) div nat s"
proof -
  obtain k where k: "s = int k" "0 < k" using assms by (metis zero_less_imp_eq_int)
  have "int n + int k - 1 = int (n + k - 1)" using k(2) by (simp add: of_nat_diff)
  then have "(int n + int k - 1) div int k = int ((n + k - 1) div k)"
    by (simp only: zdiv_int)
  then have "nat ((int n + int k - 1) div int k) = (n + k - 1) div k"
    by (simp only: nat_int)
  then show ?thesis unfolding k(1) by (simp only: nat_int)
qed

lemma split_batches_pos:
  assumes "0 < s"
  shows "split_batches df s =
           Inr (map (\<lambda>i. df\<lparr>data := take (nat s) (drop (i * nat s) (data df))\<rparr>)
                  [0..<(len df + nat s - 1) div nat s])"
proof -
  have slice: "frame_slice df (int i * s) (int i * s + s) =
               df\<lparr>data := take (nat s) (drop (i * nat s) (data df))\<rparr>" for i
    using assms by (simp add: frame_slice_def nat_mult_distrib)
  have "py_range 0 (int (len df)) s =
          map (\<lambda>i. int i * s) [0..<(len df + nat s - 1) div nat s]"
    using py_range_pos[OF assms, of 0 "int (len df)"] ceil_div_nat[OF assms, of "len df"]
    by simp
  then show ?thesis
    using assms by (simp add: split_batches_def slice o_def)
qed

lemma chunk_index_bounds:
  assumes "0 < (k::nat)" and "i < (n + k - 1) div k"
  shows "i * k < n"
proof (rule ccontr)
  assume "\<not> i * k < n"
  then have "n + k - 1 < (i + 1) * k" using assms(1) by simp
  then have "(n + k - 1) div k < i + 1"
    using assms(1) by (simp add: div_less_iff_less_mult)
  with assms(2) show False by simp
qed

lemma chunk_full:
  assumes "0 < (k::nat)" and "Suc i < (n + k - 1) div k"
  shows "(i + 1) * k < n"
  using chunk_index_bounds[OF assms] by simp

lemma chunks_cover:
  assumes "0 < (k::nat)"
  shows "n \<le> ((n + k - 1) div k) * k"
proof -
  have "n + k - 1 < ((n + k - 1) div k) * k + k"
    using assms div_mult_mod_eq[of "n + k - 1" k] mod_less_divisor[OF assms, of "n + k - 1"]
    by linarith
  then show ?thesis using assms by simp
qed

lemma example_lens: "len orders_frame = 3" "len items_frame = 2"
  by (simp_all add: len_def orders_frame_def items_frame_def)

lemma split_orders: "split_batches orders_frame 50 = Inr [orders_frame]"
  by (simp add: split_batches_pos example_lens) (simp add: orders_frame_def)

lemma split_items: "split_batches items_frame 50 = Inr [items_frame]"
  by (simp add: split_batches_pos example_lens) (simp add: items_frame_def)

lemma submit_accepting:
  assumes "t \<in> set dimension_tables" and "db_config ld = full_config"
  shows "fst (submit ld accepting_store t idx b) = success_result idx t (int (len b))"
proof -
  have "t \<noteq> ''Sales_Fact''" using assms(1) by (auto simp: dimension_tables_def)
  then show ?thesis
    using steps_healthy(1)[OF example_scripts(1) example_scripts(2) assms(1), of "int (len b)"]
    by (simp add: submit_def load_dimension_batch_steps finish_def accepting_store_def
          example_scripts(3) assms(2))
qed

lemma example_loaders:
  "db_config fresh_loader = full_config" "db_config after_stores = full_config"
  "results fresh_loader = []" "results after_stores = [success_result 0 ''Store_Dim'' 3]"
  "max_workers fresh_loader = 4" "max_workers after_stores = 4"
  by (simp_all add: fresh_loader_def new_loader_def after_stores_def)

lemma example_tables:
  "''Store_Dim'' \<in> set dimension_tables" "''Supplier_Dim'' \<in> set dimension_tables"
  by (simp_all add: dimension_tables_def)

text \<open>
  What one \<open>parallel_load\<close> adds to the summary when no batch fails and the store reports
  the rows it was given: the rows of the input, on top of everything the results list
  already held.
\<close>

lemma submit_reliable:
  assumes "reliable_store store" and "complete_config (db_config ld)"
    and "t = ''Sales_Fact'' \<or> t \<in> set dimension_tables"
  shows "fst (submit ld store t idx b) = success_result idx t (int (len b))"
proof -
  from assms(1) have h: "healthy (store t idx b)" and rc: "rowcount (store t idx b) = int (len b)"
    by (simp_all add: reliable_store_def)
  show ?thesis
  proof (cases "t = ''Sales_Fact''")
    case True
    then show ?thesis
      using steps_healthy(2)[OF assms(2) h] rc
      by (simp add: submit_def load_fact_batch_steps finish_def)
  next
    case False
    with assms(3) have "t \<in> set dimension_tables" by simp
    then show ?thesis
      using steps_healthy(1)[OF assms(2) h] False rc
      by (simp add: submit_def load_dimension_batch_steps finish_def)
  qed
qed

lemma collected_perm:
  assumes "mset completion = mset [0..<length futures]"
  shows "mset (map (\<lambda>idx. futures ! idx) (filter (\<lambda>idx. idx < length futures) completion)) =
         mset futures"
proof -
  have "set completion = {0..<length futures}"
    using assms by (metis mset_eq_setD set_upt)
  then have "filter (\<lambda>idx. idx < length futures) completion = completion"
    by (auto simp: filter_id_conv)
  moreover have "mset (map (\<lambda>idx. futures ! idx) completion) =
                 mset (map (\<lambda>idx. futures ! idx) [0..<length futures])"
    using assms by (simp only: mset_map)
  ultimately show ?thesis by (simp add: map_nth)
qed

lemma sum_rows_mset:
  "mset xs = mset ys \<Longrightarrow> sum_list (map rows_loaded xs) = sum_list (map rows_loaded ys)"
proof -
  assume "mset xs = mset ys"
  then have "mset (map rows_loaded xs) = mset (map rows_loaded ys)" by (simp only: mset_map)
  then show ?thesis by (metis sum_mset_sum_list)
qed

lemma failed_count_mset:
  "mset xs = mset ys \<Longrightarrow>
   length (filter (\<lambda>r. status r = ''failed'') xs) = length (filter (\<lambda>r. status r = ''failed'') ys)"
proof -
  assume "mset xs = mset ys"
  then have "mset (filter (\<lambda>r. status r = ''failed'') xs) =
             mset (filter (\<lambda>r. status r = ''failed'') ys)" by (simp only: mset_filter)
  then show ?thesis by (rule mset_eq_length)
qed

lemma sum_lens_concat:
  "sum_list (map (\<lambda>b. int (len b)) bs) = int (length (concat (map data bs)))"
  by (induction bs) (simp_all add: len_def)

lemma map_enumerate_snd:
  "map (\<lambda>(idx, b). f b) (enumerate n bs) = map f bs"
  by (induction bs arbitrary: n) simp_all

lemma split_batches_concat:
  assumes "0 < s"
  shows "\<exists>bs. split_batches df s = Inr bs \<and>
           length bs = (len df + nat s - 1) div nat s \<and>
           concat (map data bs) = data df"
proof -
  let ?k = "nat s"
  let ?m = "(len df + ?k - 1) div ?k"
  define bs where "bs = map (\<lambda>i. df\<lparr>data := take ?k (drop (i * ?k) (data df))\<rparr>) [0..<?m]"
  have k: "0 < ?k" using assms by simp
  have "split_batches df s = Inr bs"
    using split_batches_pos[OF assms, of df] by (simp add: bs_def)
  moreover have "length bs = ?m" by (simp add: bs_def)
  moreover have "concat (map data bs) = take (?m * ?k) (data df)"
    using concat_chunks[of ?k "data df" ?m] by (simp add: bs_def o_def)
  moreover have "len df \<le> ?m * ?k" by (rule chunks_cover[OF k])
  ultimately show ?thesis by (simp add: len_def)
qed

lemma parallel_load_summary:
  assumes s: "0 < s" and workers: "0 < max_workers ld"
    and store: "reliable_store store" and cfg: "complete_config (db_config ld)"
    and tbl: "t = ''Sales_Fact'' \<or> t \<in> set dimension_tables"
    and perm: "mset completion = mset [0..<(len df + nat s - 1) div nat s]"
  shows "\<exists>ld' sm. parallel_load ld store completion t df s = Inr (ld', sm) \<and>
           total_loaded sm = sum_list (map rows_loaded (results ld)) + int (len df) \<and>
           failed sm = length (filter (\<lambda>r. status r = ''failed'') (results ld))"
proof -
  from split_batches_concat[OF s, of df] obtain bs where
    split: "split_batches df s = Inr bs"
    and n: "length bs = (len df + nat s - 1) div nat s"
    and cover: "concat (map data bs) = data df"
    by blast
  define futures where
    "futures = map (\<lambda>(idx, batch). fst (submit ld store t idx batch)) (enumerate 0 bs)"
  define collected where
    "collected = map (\<lambda>idx. futures ! idx) (filter (\<lambda>idx. idx < length futures) completion)"
  have fut: "futures = map (\<lambda>(idx, batch). success_result idx t (int (len batch))) (enumerate 0 bs)"
    unfolding futures_def by (simp add: submit_reliable[OF store cfg tbl])
  have len_fut: "length futures = length bs" by (simp add: futures_def)
  have ms: "mset collected = mset futures"
    unfolding collected_def using perm by (intro collected_perm) (simp add: len_fut n)
  have "map rows_loaded futures = map (\<lambda>(idx, b). int (len b)) (enumerate 0 bs)"
    by (simp add: fut success_result_def case_prod_unfold)
  then have "sum_list (map rows_loaded futures) = int (len df)"
    using sum_lens_concat[of bs] cover by (simp add: map_enumerate_snd len_def)
  then have total: "sum_list (map rows_loaded collected) = int (len df)"
    using sum_rows_mset[OF ms] by simp
  have "filter (\<lambda>r. status r = ''failed'') futures = []"
    by (auto simp: fut filter_empty_conv success_result_def)
  then have nofail: "length (filter (\<lambda>r. status r = ''failed'') collected) = 0"
    using failed_count_mset[OF ms] by simp
  have "parallel_load ld store completion t df s =
          Inr (ld\<lparr>results := results ld @ collected\<rparr>, summarize (results ld @ collected))"
    using workers by (simp add: parallel_load_def split futures_def collected_def Let_def)
  then show ?thesis using total nofail by (simp add: summarize_def)
qed

text \<open>
  C8. For a positive batch size \<open>s\<close>, the partitioning step returns the batches of the
  frame in order: batch \<open>i\<close> holds exactly the rows with the indices from \<open>i * s\<close> up to,
  not including, \<open>(i + 1) * s\<close> (as far as the frame has them), in their order and under
  the frame's columns; every batch but the last has \<open>s\<close> rows and no batch is empty; a
  frame without rows gives no batch; the batches together are the frame's rows.
\<close>

theorem split_batches_partition:
  assumes "0 < s"
  shows "\<exists>bs. split_batches df s = Inr bs \<and>
     length bs = (len df + nat s - 1) div nat s \<and>
     (\<forall>i<length bs. columns (bs ! i) = columns df \<and>
        data (bs ! i) =
          map (\<lambda>j. data df ! j) [i * nat s..<min ((i + 1) * nat s) (len df)]) \<and>
     (\<forall>i. Suc i < length bs \<longrightarrow> len (bs ! i) = nat s) \<and>
     (\<forall>i<length bs. 0 < len (bs ! i) \<and> len (bs ! i) \<le> nat s) \<and>
     (len df = 0 \<longrightarrow> bs = []) \<and>
     concat (map data bs) = data df"
proof -
  let ?k = "nat s"
  let ?m = "(len df + ?k - 1) div ?k"
  define bs where "bs = map (\<lambda>i. df\<lparr>data := take ?k (drop (i * ?k) (data df))\<rparr>) [0..<?m]"
  have k: "0 < ?k" using assms by simp
  have split: "split_batches df s = Inr bs"
    using split_batches_pos[OF assms, of df] by (simp add: bs_def)
  have len_bs: "length bs = ?m" by (simp add: bs_def)
  have nth_bs: "bs ! i = df\<lparr>data := take ?k (drop (i * ?k) (data df))\<rparr>"
    if "i < length bs" for i
    using that by (simp add: bs_def)
  have rows: "columns (bs ! i) = columns df \<and>
        data (bs ! i) = map (\<lambda>j. data df ! j) [i * ?k..<min ((i + 1) * ?k) (len df)]"
    if "i < length bs" for i
    using nth_bs[OF that] take_drop_nth[of ?k "i * ?k" "data df"]
    by (simp add: len_def add.commute)
  have full: "len (bs ! i) = ?k" if "Suc i < length bs" for i
  proof -
    have "(i + 1) * ?k < len df"
      using chunk_full[OF k, of i "len df"] that by (simp add: len_bs)
    then show ?thesis using nth_bs[of i] that by (simp add: len_def)
  qed
  have nonempty: "0 < len (bs ! i) \<and> len (bs ! i) \<le> ?k" if "i < length bs" for i
  proof -
    have "i * ?k < len df"
      using chunk_index_bounds[OF k, of i "len df"] that by (simp add: len_bs)
    then show ?thesis using nth_bs[OF that] k by (simp add: len_def)
  qed
  have empty: "bs = []" if "len df = 0"
    using that k by (simp add: bs_def)
  have "concat (map data bs) = take (?m * ?k) (data df)"
    using concat_chunks[of ?k "data df" ?m] by (simp add: bs_def o_def)
  moreover have "len df \<le> ?m * ?k" by (rule chunks_cover[OF k])
  ultimately have all: "concat (map data bs) = data df" by (simp add: len_def)
  show ?thesis
  proof (intro exI[of _ bs] conjI allI impI)
    show "split_batches df s = Inr bs" by (rule split)
    show "length bs = ?m" by (rule len_bs)
    show "columns (bs ! i) = columns df" if "i < length bs" for i
      using rows[OF that] by simp
    show "data (bs ! i) = map (\<lambda>j. data df ! j) [i * ?k..<min ((i + 1) * ?k) (len df)]"
      if "i < length bs" for i
      using rows[OF that] by simp
    show "len (bs ! i) = ?k" if "Suc i < length bs" for i by (rule full[OF that])
    show "0 < len (bs ! i)" if "i < length bs" for i using nonempty[OF that] by simp
    show "len (bs ! i) \<le> ?k" if "i < length bs" for i using nonempty[OF that] by simp
    show "bs = []" if "len df = 0" by (rule empty[OF that])
    show "concat (map data bs) = data df" by (rule all)
  qed
qed

theorem split_batches_partition_witness:
  "(0::int) < 2 \<and>
   (\<exists>bs. split_batches orders_frame 2 = Inr bs \<and> length bs = 2 \<and>
      data (bs ! 0) = [[Value 1, Value 10], [Value 2, Value 20]] \<and> data (bs ! 1) = [[Value 2, Value 30]] \<and>
      concat (map data bs) = data orders_frame) \<and>
   split_batches no_rows_frame 2 = Inr []"
proof -
  have pos: "(0::int) < 2" by simp
  from split_batches_partition[OF pos, of orders_frame] obtain bs where
    bs: "split_batches orders_frame 2 = Inr bs" "length bs = 2"
    and rows: "\<forall>i<length bs. columns (bs ! i) = columns orders_frame \<and>
        data (bs ! i) =
          map (\<lambda>j. data orders_frame ! j)
            [i * nat 2..<min ((i + 1) * nat 2) (len orders_frame)]"
    and all: "concat (map data bs) = data orders_frame"
    by (auto simp: example_lens)
  from rows bs(2) have "data (bs ! 0) = [[Value 1, Value 10], [Value 2, Value 20]]" "data (bs ! 1) = [[Value 2, Value 30]]"
    by (simp_all add: example_lens upt_rec[of _ 2] upt_rec[of _ 3] orders_frame_def len_def)
  with bs all have first: "\<exists>bs. split_batches orders_frame 2 = Inr bs \<and> length bs = 2 \<and>
      data (bs ! 0) = [[Value 1, Value 10], [Value 2, Value 20]] \<and> data (bs ! 1) = [[Value 2, Value 30]] \<and>
      concat (map data bs) = data orders_frame"
    by blast
  from split_batches_partition[OF pos, of no_rows_frame]
  have "split_batches no_rows_frame 2 = Inr []"
    by (auto simp: len_def no_rows_frame_def)
  with pos first show ?thesis by blast
qed

text \<open>
  C5, at an input where the code does not do it. A loader loads three store rows, then
  two supplier rows, with a store that accepts everything. The summary of the second
  call reports five loaded rows for an input of two: it is computed from the whole
  results list, which still holds the result of the first call.
\<close>

theorem parallel_load_summary_accumulates:
  "parallel_load fresh_loader accepting_store [0] ''Store_Dim'' orders_frame 50 =
     Inr (after_stores, \<lparr>total_loaded = 3, failed = 0\<rparr>) \<and>
   parallel_load after_stores accepting_store [0] ''Supplier_Dim'' items_frame 50 =
     Inr (after_stores\<lparr>results := [success_result 0 ''Store_Dim'' 3,
                                      success_result 0 ''Supplier_Dim'' 2]\<rparr>,
          \<lparr>total_loaded = 5, failed = 0\<rparr>) \<and>
   len items_frame = 2"
proof -
  have first: "parallel_load fresh_loader accepting_store [0] ''Store_Dim'' orders_frame 50 =
     Inr (after_stores, \<lparr>total_loaded = 3, failed = 0\<rparr>)"
    by (simp add: parallel_load_def split_orders example_lens example_loaders
          submit_accepting[OF example_tables(1) example_loaders(1)]
          after_stores_def summarize_def success_result_def)
  have second: "parallel_load after_stores accepting_store [0] ''Supplier_Dim'' items_frame 50 =
     Inr (after_stores\<lparr>results := [success_result 0 ''Store_Dim'' 3,
                                      success_result 0 ''Supplier_Dim'' 2]\<rparr>,
          \<lparr>total_loaded = 5, failed = 0\<rparr>)"
    by (simp add: parallel_load_def split_items example_lens example_loaders
          submit_accepting[OF example_tables(2) example_loaders(2)]
          summarize_def success_result_def)
  from first second example_lens(2) show ?thesis by simp
qed

section \<open>The date dimension: properties\<close>




lemma date_le_total: "date_le a b \<or> date_le b a"
  by (auto simp: date_le_def)







lemma days_before_month_Suc:
  "1 \<le> m \<Longrightarrow> days_before_month y (Suc m) = days_before_month y m + days_in_month y m"
  by (simp add: days_before_month_def)

lemma days_before_december:
  "days_before_month y 12 + 31 = (if is_leap y then 366 else 365)"
proof -
  have "[1..<12] = [1, 2, 3, 4, 5, 6, 7, 8, 9, 10, 11::nat]"
    by code_simp
  then show ?thesis by (simp add: days_before_month_def days_in_month_def)
qed

lemma div_pred:
  fixes y c :: int
  assumes "0 < c"
  shows "y div c = (y - 1) div c + (if y mod c = 0 then 1 else 0)"
proof (cases "y mod c = 0")
  case True
  have "y - 1 = c * (y div c - 1) + (c - 1)"
    using True mult_div_mod_eq[of c y] by (simp add: algebra_simps)
  then have "(y - 1) div c = y div c - 1"
    using assms int_div_pos_eq[of "y - 1" c "y div c - 1" "c - 1"] by simp
  then show ?thesis using True by simp
next
  case False
  have "0 \<le> y mod c" "y mod c < c" using assms by simp_all
  with False have r: "0 \<le> y mod c - 1" "y mod c - 1 < c" by simp_all
  have "y - 1 = c * (y div c) + (y mod c - 1)"
    using mult_div_mod_eq[of c y] by simp
  then have "(y - 1) div c = y div c"
    using r int_div_pos_eq[of "y - 1" c "y div c" "y mod c - 1"] by simp
  then show ?thesis using False by simp
qed

lemma year_step: "y * 365 + y div 4 - y div 100 + y div 400 =
   (y - 1) * 365 + (y - 1) div 4 - (y - 1) div 100 + (y - 1) div 400 +
   (if y mod 4 = 0 \<and> (y mod 100 \<noteq> 0 \<or> y mod 400 = 0) then 366 else 365)" for y :: int
proof -
  have d4: "y div 4 = (y - 1) div 4 + (if y mod 4 = 0 then 1 else 0)" by (rule div_pred) simp
  have d100: "y div 100 = (y - 1) div 100 + (if y mod 100 = 0 then 1 else 0)"
    by (rule div_pred) simp
  have d400: "y div 400 = (y - 1) div 400 + (if y mod 400 = 0 then 1 else 0)"
    by (rule div_pred) simp
  have m1: "y mod 100 = 0 \<Longrightarrow> y mod 4 = 0"
    using mod_mod_cancel[of 4 100 y] by simp
  have m2: "y mod 400 = 0 \<Longrightarrow> y mod 100 = 0"
    using mod_mod_cancel[of 100 400 y] by simp
  consider (a) "y mod 4 \<noteq> 0" | (b) "y mod 4 = 0" "y mod 100 \<noteq> 0"
    | (c) "y mod 100 = 0" "y mod 400 \<noteq> 0" | (d) "y mod 400 = 0"
    by (cases "y mod 4 = 0"; cases "y mod 100 = 0"; cases "y mod 400 = 0") auto
  then show ?thesis
  proof cases
    case a
    with m1 m2 have "y mod 100 \<noteq> 0" "y mod 400 \<noteq> 0" by auto
    with a show ?thesis unfolding d4 d100 d400 by simp
  next
    case b
    with m2 have "y mod 400 \<noteq> 0" by auto
    with b show ?thesis unfolding d4 d100 d400 by simp
  next
    case c
    with m1 have "y mod 4 = 0" by auto
    with c show ?thesis unfolding d4 d100 d400 by simp
  next
    case d
    with m1 m2 have "y mod 100 = 0" "y mod 4 = 0" by auto
    with d show ?thesis unfolding d4 d100 d400 by simp
  qed
qed

lemma weekday_step: "nat ((t + 1) mod 7) = (nat (t mod 7) + 1) mod 7" for t :: int
proof -
  have "0 \<le> t mod 7" by simp
  then obtain k where k: "t mod 7 = int k" using nonneg_int_cases by blast
  have "(t + 1) mod 7 = (t mod 7 + 1) mod 7" by (simp add: mod_add_left_eq)
  also have "\<dots> = int ((k + 1) mod 7)" by (simp add: k zmod_int add.commute)
  finally show ?thesis by (simp add: k)
qed

lemma days_before_next_year:
  "days_before_year (y + 1) = days_before_year y + (if is_leap y then 366 else 365)"
proof -
  have "y + 1 - 1 = y" by simp
  then show ?thesis
    unfolding days_before_year_def is_leap_def by (simp only: year_step[of y])
qed

lemma toordinal_next_day:
  assumes "valid_date d"
  shows "toordinal (next_day d) = toordinal d + 1"
proof (cases "day d < days_in_month (year d) (month d)")
  case True
  then show ?thesis by (simp add: next_day_def toordinal_def)
next
  case last: False
  with assms have dd: "day d = days_in_month (year d) (month d)"
    by (simp add: valid_date_def)
  show ?thesis
  proof (cases "month d < 12")
    case True
    from assms have "1 \<le> month d" by (simp add: valid_date_def)
    from days_before_month_Suc[OF this, of "year d"] show ?thesis
      using last True by (simp add: next_day_def toordinal_def dd)
  next
    case False
    with assms have m: "month d = 12" by (simp add: valid_date_def)
    have d31: "day d = 31" using dd m by (simp add: days_in_month_def)
    have z: "days_before_month (year d + 1) (Suc 0) = 0" by (simp add: days_before_month_def)
    have nd: "next_day d = \<lparr>year = year d + 1, month = 1, day = 1\<rparr>"
      using last False by (cases d) (simp add: next_day_def)
    have lhs: "toordinal (next_day d) = days_before_year (year d + 1) + 1"
      unfolding nd by (simp add: toordinal_def z)
    have rhs: "toordinal d = days_before_year (year d) + int (days_before_month (year d) 12 + 31)"
      by (simp add: toordinal_def m d31)
    show ?thesis
    proof (cases "is_leap (year d)")
      case True
      then show ?thesis
        unfolding lhs rhs days_before_december days_before_next_year by simp
    next
      case False
      then show ?thesis
        unfolding lhs rhs days_before_december days_before_next_year by simp
    qed
  qed
qed

lemma dayofweek_next_day:
  "valid_date d \<Longrightarrow> dayofweek (next_day d) = (dayofweek d + 1) mod 7"
proof -
  assume "valid_date d"
  then have "toordinal (next_day d) + 6 = (toordinal d + 6) + 1"
    by (simp add: toordinal_next_day)
  then show ?thesis
    unfolding dayofweek_def using weekday_step[of "toordinal d + 6"] by simp
qed













end
